theory Spec2Isabelle
  imports Main "HOL-Library.Word" "HOL-Library.Stream"
begin

section \<open>usbcam.h: a V4L2 capture session with a memory-mapped buffer pool\<close>

text \<open>
  The header keeps one capture session in file-scope variables and offers four operations:
  \<^verbatim>\<open>usbcam_init\<close>, \<^verbatim>\<open>usbcam_cleanup\<close>, \<^verbatim>\<open>usbcam_lock\<close> and \<^verbatim>\<open>usbcam_unlock\<close>.
  Every operation talks to the kernel driver (\<^verbatim>\<open>v4l2_open\<close>, \<^verbatim>\<open>v4l2_ioctl\<close>, \<^verbatim>\<open>mmap\<close>,
  \<^verbatim>\<open>munmap\<close>, \<^verbatim>\<open>select\<close>, \<^verbatim>\<open>close\<close>). The embedding threads one \<open>world\<close> value through
  the code: the file-scope variables of the header together with the state of the driver.
  The driver is not part of the header; its model is kept apart in its own subsection and
  follows the V4L2 streaming I/O rules for buffer queues.

  What the model assumes of the driver:
  \<^item> a kernel call either fails, with no effect, or takes its normal path; which calls
    fail, and with which \<open>errno\<close>, is arbitrary;
  \<^item> the driver finishes frames between two calls of the application, not during one:
    within a call the queues change only by the requests of that call;
  \<^item> it dequeues in the order of completion, hands out only buffers that were queued to
    it, and reports at most the buffer's length as used.
  The messages printed by \<^verbatim>\<open>usbcam_debug\<close> and before \<^verbatim>\<open>exit\<close> are not modelled,
  apart from the message of a failed assertion.
\<close>

subsection \<open>Data of the V4L2 interface\<close>

type_synonym u32 = "32 word"
type_synonym addr = "64 word"

record timeval =
  tv_sec :: "64 word"
  tv_usec :: "64 word"

text \<open>The fields of \<^verbatim>\<open>struct v4l2_buffer\<close> that the header reads or writes
  (\<open>buf_type\<close> is the C field \<^verbatim>\<open>type\<close>, \<open>m_offset\<close> is \<^verbatim>\<open>m.offset\<close>, \<open>buf_length\<close> is
  \<^verbatim>\<open>length\<close>).\<close>

record v4l2_buffer =
  index :: u32
  buf_type :: u32
  bytesused :: u32
  timestamp :: timeval
  memory :: u32
  m_offset :: u32
  buf_length :: u32

record v4l2_format =
  fmt_type :: u32
  pix_pixelformat :: u32
  pix_width :: u32
  pix_height :: u32

record v4l2_requestbuffers =
  req_count :: u32
  req_type :: u32
  req_memory :: u32

record usbcam_opt_t =
  device_name :: string
  buffers :: int
  pixel_format :: u32
  width :: u32
  height :: u32

definition V4L2_BUF_TYPE_VIDEO_CAPTURE :: u32 where
  "V4L2_BUF_TYPE_VIDEO_CAPTURE = 1"

definition V4L2_MEMORY_MMAP :: u32 where
  "V4L2_MEMORY_MMAP = 1"

definition MAP_FAILED :: addr where
  "MAP_FAILED = - 1"

definition usbcam_max_buffers :: nat where
  "usbcam_max_buffers = 128"

text \<open>A C aggregate initialised with \<^verbatim>\<open>{0}\<close>.\<close>

definition zero_timeval :: timeval where
  "zero_timeval = \<lparr>tv_sec = 0, tv_usec = 0\<rparr>"

definition zero_buffer :: v4l2_buffer where
  "zero_buffer = \<lparr>index = 0, buf_type = 0, bytesused = 0, timestamp = zero_timeval,
     memory = 0, m_offset = 0, buf_length = 0\<rparr>"

datatype errno = EINTR | EAGAIN | EBADF | EINVAL | EIO | ENODEV | ENOMEM

subsection \<open>The driver\<close>

text \<open>
  What a kernel call answers: a value, \<open>-1\<close> with an \<open>errno\<close>, or nothing at all because
  the call sleeps and is never woken (the device is opened without \<^verbatim>\<open>O_NONBLOCK\<close>, so
  \<^verbatim>\<open>VIDIOC_DQBUF\<close> sleeps while no filled buffer is available).
\<close>

datatype 'a sysres = Ok 'a | Err errno | Blocks

text \<open>The calls the driver has carried out, in order.\<close>

datatype call =
    Open
  | SetFormat
  | RequestBuffers u32
  | QueryBuffer u32
  | MapBuffer u32
  | StreamOn
  | Enqueue u32
  | Dequeue u32
  | Poll
  | UnmapBuffer addr u32
  | StreamOff
  | Close int

text \<open>
  The driver state.
  \<^item> \<open>faults\<close> scripts the failures of the coming kernel calls: each call that can fail takes
    the head of the stream; \<open>Some e\<close> makes that call fail with \<open>errno = e\<close> and no effect,
    \<open>None\<close> lets it take its normal path. The stream is arbitrary, so every pattern of
    transient and real failures is covered, endless \<^verbatim>\<open>EINTR\<close> included.
  \<^item> \<open>device_fd\<close>, \<open>negotiate\<close>, \<open>grant\<close>, \<open>buffer_size\<close>, \<open>buffer_offset\<close> and \<open>map_base\<close>
    are the answers of the device: the descriptor of a successful open, the format and
    buffer count it settles on, the length and offset of each buffer, and where a mapping
    is placed.
  \<^item> \<open>incoming\<close> is the queue of buffers handed to the driver for filling, \<open>outgoing\<close> the
    queue of filled buffers waiting to be dequeued (oldest first), \<open>held\<close> the indices
    dequeued by the application and not handed back yet.
  \<^item> \<open>trace\<close> lists the calls carried out so far.
\<close>

record driver =
  faults :: "errno option stream"
  device_fd :: nat
  negotiate :: "v4l2_format \<Rightarrow> v4l2_format"
  grant :: "u32 \<Rightarrow> u32"
  buffer_size :: "u32 \<Rightarrow> u32"
  buffer_offset :: "u32 \<Rightarrow> u32"
  map_base :: "u32 \<Rightarrow> addr"
  incoming :: "u32 list"
  outgoing :: "v4l2_buffer list"
  held :: "u32 list"
  trace :: "call list"

definition performs :: "call \<Rightarrow> driver \<Rightarrow> driver" where
  "performs c d = d\<lparr>trace := trace d @ [c]\<rparr>"

definition syscall :: "(driver \<Rightarrow> 'a sysres \<times> driver) \<Rightarrow> driver \<Rightarrow> 'a sysres \<times> driver" where
  "syscall normal d =
     (let d' = d\<lparr>faults := stl (faults d)\<rparr>
      in case shd (faults d) of Some e \<Rightarrow> (Err e, d') | None \<Rightarrow> normal d')"

text \<open>The seven requests the header sends through \<^verbatim>\<open>v4l2_ioctl\<close>, each with the structure
  it points to; the answer is the structure as the driver leaves it.\<close>

definition VIDIOC_S_FMT :: "v4l2_format \<Rightarrow> int \<Rightarrow> driver \<Rightarrow> v4l2_format sysres \<times> driver" where
  "VIDIOC_S_FMT fmt fd = syscall (\<lambda>d. (Ok (negotiate d fmt), performs SetFormat d))"

definition VIDIOC_REQBUFS ::
  "v4l2_requestbuffers \<Rightarrow> int \<Rightarrow> driver \<Rightarrow> v4l2_requestbuffers sysres \<times> driver" where
  "VIDIOC_REQBUFS request fd = syscall (\<lambda>d.
     (Ok (request\<lparr>req_count := grant d (req_count request)\<rparr>),
      performs (RequestBuffers (grant d (req_count request)))
        (d\<lparr>incoming := [], outgoing := [], held := []\<rparr>)))"

definition VIDIOC_QUERYBUF :: "v4l2_buffer \<Rightarrow> int \<Rightarrow> driver \<Rightarrow> v4l2_buffer sysres \<times> driver" where
  "VIDIOC_QUERYBUF info fd = syscall (\<lambda>d.
     (Ok (info\<lparr>buf_length := buffer_size d (index info),
               m_offset := buffer_offset d (index info)\<rparr>),
      performs (QueryBuffer (index info)) d))"

definition VIDIOC_STREAMON :: "u32 \<Rightarrow> int \<Rightarrow> driver \<Rightarrow> u32 sysres \<times> driver" where
  "VIDIOC_STREAMON type fd = syscall (\<lambda>d. (Ok type, performs StreamOn d))"

definition VIDIOC_STREAMOFF :: "u32 \<Rightarrow> int \<Rightarrow> driver \<Rightarrow> u32 sysres \<times> driver" where
  "VIDIOC_STREAMOFF type fd = syscall (\<lambda>d.
     (Ok type, performs StreamOff (d\<lparr>incoming := [], outgoing := [], held := []\<rparr>)))"

definition VIDIOC_QBUF :: "v4l2_buffer \<Rightarrow> int \<Rightarrow> driver \<Rightarrow> v4l2_buffer sysres \<times> driver" where
  "VIDIOC_QBUF buf fd = syscall (\<lambda>d.
     (Ok buf,
      performs (Enqueue (index buf))
        (d\<lparr>incoming := incoming d @ [index buf], held := remove1 (index buf) (held d)\<rparr>)))"

definition VIDIOC_DQBUF :: "v4l2_buffer \<Rightarrow> int \<Rightarrow> driver \<Rightarrow> v4l2_buffer sysres \<times> driver" where
  "VIDIOC_DQBUF buf fd = syscall (\<lambda>d.
     case outgoing d of
       [] \<Rightarrow> (Blocks, d)
     | b # bs \<Rightarrow>
         (Ok b, performs (Dequeue (index b)) (d\<lparr>outgoing := bs, held := held d @ [index b]\<rparr>)))"

definition v4l2_ioctl ::
  "int \<Rightarrow> (int \<Rightarrow> driver \<Rightarrow> 'a sysres \<times> driver) \<Rightarrow> driver \<Rightarrow> 'a sysres \<times> driver" where
  "v4l2_ioctl fd request d = request fd d"

text \<open>\<^verbatim>\<open>v4l2_open\<close> answers the descriptor or \<open>-1\<close>; \<^verbatim>\<open>mmap\<close> the address or
  \<^verbatim>\<open>MAP_FAILED\<close>; \<^verbatim>\<open>select\<close> with a zero timeout the number of ready descriptors
  (1 when a filled buffer waits, else 0) or \<open>-1\<close>.\<close>

definition v4l2_open :: "string \<Rightarrow> driver \<Rightarrow> int \<times> driver" where
  "v4l2_open name d =
     (case syscall (\<lambda>d. (Ok (int (device_fd d)), performs Open d)) d of
        (Ok fd, d') \<Rightarrow> (fd, d')
      | (_, d') \<Rightarrow> (- 1, d'))"

definition mmap :: "u32 \<Rightarrow> int \<Rightarrow> u32 \<Rightarrow> driver \<Rightarrow> addr \<times> driver" where
  "mmap len fd offset d =
     (case syscall (\<lambda>d. (Ok (map_base d offset), performs (MapBuffer offset) d)) d of
        (Ok p, d') \<Rightarrow> (p, d')
      | (_, d') \<Rightarrow> (MAP_FAILED, d'))"

definition select_readable :: "int \<Rightarrow> driver \<Rightarrow> int \<times> driver" where
  "select_readable fd d =
     (case syscall (\<lambda>d. (Ok (if outgoing d = [] then 0 else 1), performs Poll d)) d of
        (Ok r, d') \<Rightarrow> (r, d')
      | (_, d') \<Rightarrow> (- 1, d'))"

text \<open>The header ignores what \<^verbatim>\<open>munmap\<close> and \<^verbatim>\<open>close\<close> answer, so they take no entry of
  the fault script.\<close>

definition munmap :: "addr \<Rightarrow> u32 \<Rightarrow> driver \<Rightarrow> driver" where
  "munmap start len d = performs (UnmapBuffer start len) d"

definition close :: "int \<Rightarrow> driver \<Rightarrow> driver" where
  "close fd d = performs (Close fd) (d\<lparr>incoming := [], outgoing := [], held := []\<rparr>)"

text \<open>Between two calls of the application the driver may finish a frame: it takes the
  oldest buffer of \<open>incoming\<close>, fills at most the buffer's length and appends it to
  \<open>outgoing\<close> with the number of bytes used and the capture time.\<close>

definition driver_completes :: "u32 \<Rightarrow> timeval \<Rightarrow> driver \<Rightarrow> driver" where
  "driver_completes used ts d =
     (case incoming d of
        [] \<Rightarrow> d
      | i # rest \<Rightarrow>
          d\<lparr>incoming := rest,
            outgoing := outgoing d @
              [\<lparr>index = i, buf_type = V4L2_BUF_TYPE_VIDEO_CAPTURE,
                bytesused = min used (buffer_size d i), timestamp = ts,
                memory = V4L2_MEMORY_MMAP, m_offset = buffer_offset d i,
                buf_length = buffer_size d i\<rparr>]\<rparr>)"

subsection \<open>The file-scope variables and the outcome of a call\<close>

text \<open>The \<^verbatim>\<open>usbcam_has_*\<close> flags are C ints that only ever hold 0 or 1. The two arrays
  have \<^verbatim>\<open>usbcam_max_buffers\<close> entries.\<close>

record world =
  usbcam_has_mmap :: bool
  usbcam_has_dqbuf :: bool
  usbcam_has_fd :: bool
  usbcam_has_stream :: bool
  usbcam_fd :: int
  usbcam_buffers :: int
  usbcam_buffer_start :: "addr list"
  usbcam_buffer_length :: "u32 list"
  usbcam_dqbuf :: v4l2_buffer
  drv :: driver

text \<open>The variables as the C initialisers leave them at program start.\<close>

definition program_start :: "driver \<Rightarrow> world" where
  "program_start d =
     \<lparr>usbcam_has_mmap = False, usbcam_has_dqbuf = False, usbcam_has_fd = False,
      usbcam_has_stream = False, usbcam_fd = 0, usbcam_buffers = 0,
      usbcam_buffer_start = replicate usbcam_max_buffers 0,
      usbcam_buffer_length = replicate usbcam_max_buffers 0,
      usbcam_dqbuf = zero_buffer, drv = d\<rparr>"

text \<open>
  A call either returns, or ends the process: \<^verbatim>\<open>usbcam_assert\<close> and \<^verbatim>\<open>usbcam_ioctl\<close> call
  \<^verbatim>\<open>exit(EXIT_FAILURE)\<close>, a write through a null pointer or a read past an array is a
  crash. The world at that moment is kept. A call that never returns is \<open>None\<close>.
\<close>

datatype failure =
    AssertFailed string
  | RequestFailed errno
  | NullDereference
  | OutOfBounds

datatype 'a outcome = Returns 'a world | Aborts failure world

definition andthen ::
  "'a outcome option \<Rightarrow> ('a \<Rightarrow> world \<Rightarrow> 'b outcome option) \<Rightarrow> 'b outcome option" where
  "andthen m k =
     (case m of
        None \<Rightarrow> None
      | Some (Aborts f w) \<Rightarrow> Some (Aborts f w)
      | Some (Returns a w) \<Rightarrow> k a w)"

definition usbcam_assert :: "bool \<Rightarrow> string \<Rightarrow> world \<Rightarrow> unit outcome option" where
  "usbcam_assert CONDITION MESSAGE w =
     Some (if CONDITION then Returns () w else Aborts (AssertFailed MESSAGE) w)"

text \<open>A C \<^verbatim>\<open>for (int i = 0; i < n; i++)\<close> loop runs its body over \<open>[0..<n]\<close>.\<close>

fun for_loop ::
  "nat list \<Rightarrow> (nat \<Rightarrow> world \<Rightarrow> unit outcome option) \<Rightarrow> world \<Rightarrow> unit outcome option" where
  "for_loop [] body w = Some (Returns () w)"
| "for_loop (i # rest) body w = andthen (body i w) (\<lambda>_. for_loop rest body)"

subsection \<open>usbcam\_ioctl\<close>

text \<open>The \<^verbatim>\<open>do ... while (r == -1 && (errno == EINTR || errno == EAGAIN))\<close> loop. It ends
  with the answer of the first attempt that is neither interrupted nor told to try again;
  it need not end.\<close>

partial_function (option) ioctl_retry ::
  "int \<Rightarrow> (int \<Rightarrow> driver \<Rightarrow> 'a sysres \<times> driver) \<Rightarrow> driver \<Rightarrow> ((errno + 'a) \<times> driver) option" where
  "ioctl_retry fd request d =
     (case v4l2_ioctl fd request d of
        (Blocks, d') \<Rightarrow> None
      | (Err e, d') \<Rightarrow>
          if e = EINTR \<or> e = EAGAIN then ioctl_retry fd request d' else Some (Inl e, d')
      | (Ok a, d') \<Rightarrow> Some (Inr a, d'))"

definition usbcam_ioctl ::
  "(int \<Rightarrow> driver \<Rightarrow> 'a sysres \<times> driver) \<Rightarrow> world \<Rightarrow> 'a outcome option" where
  "usbcam_ioctl request w =
     andthen (usbcam_assert (usbcam_has_fd w) ''The camera device has not been opened yet!'' w)
       (\<lambda>_ w. case ioctl_retry (usbcam_fd w) request (drv w) of
           None \<Rightarrow> None
         | Some (Inl e, d) \<Rightarrow> Some (Aborts (RequestFailed e) (w\<lparr>drv := d\<rparr>))
         | Some (Inr a, d) \<Rightarrow> Some (Returns a (w\<lparr>drv := d\<rparr>)))"

subsection \<open>usbcam\_cleanup\<close>

definition unmap_buffer :: "nat \<Rightarrow> world \<Rightarrow> unit outcome option" where
  "unmap_buffer i w =
     (if i < usbcam_max_buffers
      then Some (Returns ()
             (w\<lparr>drv := munmap (usbcam_buffer_start w ! i) (usbcam_buffer_length w ! i) (drv w)\<rparr>))
      else Some (Aborts OutOfBounds w))"

definition usbcam_cleanup :: "world \<Rightarrow> unit outcome option" where
  "usbcam_cleanup w =
     andthen
       (if usbcam_has_dqbuf w
        then andthen (usbcam_ioctl (VIDIOC_QBUF (usbcam_dqbuf w)) w)
               (\<lambda>_ w. Some (Returns () (w\<lparr>usbcam_has_dqbuf := False\<rparr>)))
        else Some (Returns () w))
     (\<lambda>_ w. andthen
       (if usbcam_has_mmap w
        then andthen (for_loop [0..<nat (usbcam_buffers w)] unmap_buffer w)
               (\<lambda>_ w. Some (Returns () (w\<lparr>usbcam_has_mmap := False\<rparr>)))
        else Some (Returns () w))
     (\<lambda>_ w. andthen
       (if usbcam_has_stream w
        then andthen (usbcam_ioctl (VIDIOC_STREAMOFF V4L2_BUF_TYPE_VIDEO_CAPTURE) w)
               (\<lambda>_ w. Some (Returns () (w\<lparr>usbcam_has_stream := False\<rparr>)))
        else Some (Returns () w))
     (\<lambda>_ w.
        if usbcam_has_fd w
        then Some (Returns () (w\<lparr>drv := close (usbcam_fd w) (drv w), usbcam_has_fd := False\<rparr>))
        else Some (Returns () w))))"

subsection \<open>usbcam\_init\<close>

text \<open>The body of the allocation loop. The index is below \<^verbatim>\<open>opt.buffers\<close>, which the
  assertions before the loop keep within the arrays; the assertion tests the address
  just stored.\<close>

definition allocate_buffer :: "nat \<Rightarrow> world \<Rightarrow> unit outcome option" where
  "allocate_buffer i w =
     andthen
       (usbcam_ioctl
          (VIDIOC_QUERYBUF
             (zero_buffer\<lparr>buf_type := V4L2_BUF_TYPE_VIDEO_CAPTURE, memory := V4L2_MEMORY_MMAP,
                index := of_nat i\<rparr>)) w)
       (\<lambda>info w.
          case mmap (buf_length info) (usbcam_fd w) (m_offset info) (drv w) of
            (p, d) \<Rightarrow>
              usbcam_assert (p \<noteq> MAP_FAILED) ''Failed to allocate memory for buffers''
                (w\<lparr>usbcam_buffer_length := (usbcam_buffer_length w)[i := buf_length info],
                   usbcam_buffer_start := (usbcam_buffer_start w)[i := p],
                   drv := d\<rparr>))"

definition queue_buffer :: "nat \<Rightarrow> world \<Rightarrow> unit outcome option" where
  "queue_buffer i w =
     andthen
       (usbcam_ioctl
          (VIDIOC_QBUF
             (zero_buffer\<lparr>buf_type := V4L2_BUF_TYPE_VIDEO_CAPTURE, memory := V4L2_MEMORY_MMAP,
                index := of_nat i\<rparr>)) w)
       (\<lambda>_ w. Some (Returns () w))"

definition usbcam_init :: "usbcam_opt_t \<Rightarrow> world \<Rightarrow> unit outcome option" where
  "usbcam_init opt w =
     andthen (usbcam_cleanup w) (\<lambda>_ w.
     andthen (usbcam_assert (buffers opt \<le> int usbcam_max_buffers)
                ''You requested too many buffers'' w) (\<lambda>_ w.
     andthen (usbcam_assert (buffers opt > 0) ''You need atleast one buffer'' w) (\<lambda>_ w.
     case v4l2_open (device_name opt) (drv w) of (fd, d) \<Rightarrow>
     andthen (usbcam_assert (fd \<ge> 0) ''Failed to open device''
                (w\<lparr>usbcam_fd := fd, drv := d\<rparr>)) (\<lambda>_ w.
     andthen (usbcam_ioctl
                (VIDIOC_S_FMT
                   \<lparr>fmt_type = V4L2_BUF_TYPE_VIDEO_CAPTURE, pix_pixelformat = pixel_format opt,
                    pix_width = width opt, pix_height = height opt\<rparr>)
                (w\<lparr>usbcam_has_fd := True\<rparr>)) (\<lambda>fmt w.
     andthen (usbcam_assert (pix_pixelformat fmt = pixel_format opt)
                ''Did not get the requested format'' w) (\<lambda>_ w.
     andthen (usbcam_assert (pix_width fmt = width opt)
                ''Did not get the requested width'' w) (\<lambda>_ w.
     andthen (usbcam_assert (pix_height fmt = height opt)
                ''Did not get the requested height'' w) (\<lambda>_ w.
     andthen (usbcam_ioctl
                (VIDIOC_REQBUFS
                   \<lparr>req_count = word_of_int (buffers opt),
                    req_type = V4L2_BUF_TYPE_VIDEO_CAPTURE, req_memory = V4L2_MEMORY_MMAP\<rparr>)
                w) (\<lambda>request w.
     andthen (usbcam_assert (req_count request = word_of_int (buffers opt))
                ''Did not get the requested number of buffers'' w) (\<lambda>_ w.
     andthen (for_loop [0..<nat (buffers opt)] allocate_buffer w) (\<lambda>_ w.
     andthen (usbcam_ioctl (VIDIOC_STREAMON V4L2_BUF_TYPE_VIDEO_CAPTURE)
                (w\<lparr>usbcam_buffers := buffers opt, usbcam_has_mmap := True\<rparr>)) (\<lambda>_ w.
     for_loop [0..<nat (buffers opt)] queue_buffer
       (w\<lparr>usbcam_has_stream := True\<rparr>)))))))))))))"

subsection \<open>usbcam\_unlock and usbcam\_lock\<close>

definition usbcam_unlock :: "world \<Rightarrow> unit outcome option" where
  "usbcam_unlock w =
     (if usbcam_has_dqbuf w
      then andthen (usbcam_ioctl (VIDIOC_QBUF (usbcam_dqbuf w)) w)
             (\<lambda>_ w. Some (Returns () (w\<lparr>usbcam_has_dqbuf := False\<rparr>)))
      else Some (Returns () w))"

text \<open>The \<^verbatim>\<open>while (r == 1)\<close> loop of \<^verbatim>\<open>usbcam_lock\<close>, entered with the buffer just
  dequeued: ask \<^verbatim>\<open>select\<close> whether another buffer is ready; if it answers 1, hand the
  held buffer back and dequeue the next; on any other answer leave the loop.\<close>

partial_function (option) lock_drain :: "v4l2_buffer \<Rightarrow> world \<Rightarrow> v4l2_buffer outcome option" where
  "lock_drain buf w =
     (case select_readable (usbcam_fd w + 1) (drv w) of
        (r, d) \<Rightarrow>
          if r = 1
          then (case usbcam_ioctl (VIDIOC_QBUF buf) (w\<lparr>drv := d\<rparr>) of
                  None \<Rightarrow> None
                | Some (Aborts f w1) \<Rightarrow> Some (Aborts f w1)
                | Some (Returns buf1 w1) \<Rightarrow>
                    (case usbcam_ioctl (VIDIOC_DQBUF buf1) w1 of
                       None \<Rightarrow> None
                     | Some (Aborts f w2) \<Rightarrow> Some (Aborts f w2)
                     | Some (Returns buf2 w2) \<Rightarrow> lock_drain buf2 w2))
          else Some (Returns buf (w\<lparr>drv := d\<rparr>)))"

text \<open>The three out-parameters of \<^verbatim>\<open>usbcam_lock\<close> are pointers supplied by the caller;
  the declaration gives \<^verbatim>\<open>timestamp\<close> the default \<^verbatim>\<open>0\<close>. What is stored through them is
  returned as the triple (data, size, timestamp).\<close>

datatype pointer = NullPtr | ValidPtr

definition store_through :: "pointer \<Rightarrow> world \<Rightarrow> unit outcome option" where
  "store_through p w =
     Some (if p = NullPtr then Aborts NullDereference w else Returns () w)"

definition usbcam_lock ::
  "pointer \<Rightarrow> pointer \<Rightarrow> pointer \<Rightarrow> world \<Rightarrow> (addr \<times> u32 \<times> timeval) outcome option" where
  "usbcam_lock data size_p timestamp_p w =
     andthen (usbcam_assert (\<not> usbcam_has_dqbuf w)
                ''You forgot to unlock the previous frame'' w) (\<lambda>_ w.
     andthen (usbcam_assert (usbcam_has_fd w) ''Camera device not open'' w) (\<lambda>_ w.
     andthen (usbcam_assert (usbcam_has_mmap w) ''Buffers not allocated'' w) (\<lambda>_ w.
     andthen (usbcam_assert (usbcam_has_stream w) ''Stream not begun'' w) (\<lambda>_ w.
     andthen (usbcam_ioctl
                (VIDIOC_DQBUF
                   (zero_buffer\<lparr>buf_type := V4L2_BUF_TYPE_VIDEO_CAPTURE,
                      memory := V4L2_MEMORY_MMAP\<rparr>)) w) (\<lambda>buf w.
     andthen (lock_drain buf w) (\<lambda>buf w.
     andthen (store_through timestamp_p w) (\<lambda>_ w.
     andthen (if unat (index buf) < usbcam_max_buffers then store_through data w
              else Some (Aborts OutOfBounds w)) (\<lambda>_ w.
     andthen (store_through size_p w) (\<lambda>_ w.
     Some (Returns
             (usbcam_buffer_start w ! unat (index buf), bytesused buf, timestamp buf)
             (w\<lparr>usbcam_dqbuf := buf, usbcam_has_dqbuf := True\<rparr>)))))))))))"

subsection \<open>Sequences of calls\<close>

text \<open>A driver is quiet when no failure is scripted for any coming call, and idle when its
  queues are empty.\<close>

definition quiet :: "driver \<Rightarrow> bool" where
  "quiet d = (faults d = sconst None)"

definition idle :: "driver \<Rightarrow> bool" where
  "idle d = (incoming d = [] \<and> outgoing d = [] \<and> held d = [])"

text \<open>What happens to a session: the application calls one of the four operations, or
  the driver finishes a frame between two calls. A call that ends the process or never
  returns ends the session.\<close>

datatype event =
    Init usbcam_opt_t
  | Cleanup
  | Lock pointer pointer pointer
  | Unlock
  | Completes u32 timeval

definition returned :: "'a outcome option \<Rightarrow> world option" where
  "returned m = (case m of Some (Returns a w) \<Rightarrow> Some w | _ \<Rightarrow> None)"

definition result_of :: "'a outcome option \<Rightarrow> 'a option" where
  "result_of m = (case m of Some (Returns a w) \<Rightarrow> Some a | _ \<Rightarrow> None)"

fun step :: "event \<Rightarrow> world \<Rightarrow> world option" where
  "step (Init opt) w = returned (usbcam_init opt w)"
| "step Cleanup w = returned (usbcam_cleanup w)"
| "step (Lock data size_p timestamp_p) w = returned (usbcam_lock data size_p timestamp_p w)"
| "step Unlock w = returned (usbcam_unlock w)"
| "step (Completes used ts) w = Some (w\<lparr>drv := driver_completes used ts (drv w)\<rparr>)"

fun run :: "event list \<Rightarrow> world \<Rightarrow> world option" where
  "run [] w = Some w"
| "run (e # es) w = (case step e w of None \<Rightarrow> None | Some w' \<Rightarrow> run es w')"

subsection \<open>A driver that interrupts requests\<close>

text \<open>\<^verbatim>\<open>usbcam_ioctl\<close> repeats a request that was answered \<^verbatim>\<open>EINTR\<close> or \<^verbatim>\<open>EAGAIN\<close>.
  \<open>after_retries es s\<close> is the script of a driver that interrupts a request with the errors
  \<open>es\<close>, then carries it out and goes on with \<open>s\<close>; \<open>refused_after es e s\<close> the script of
  one that interrupts it with \<open>es\<close> and then refuses it with \<open>e\<close>. \<open>lock_script\<close> is the
  script of a driver that carries out what one \<^verbatim>\<open>usbcam_lock\<close> asks: the first dequeue, then
  for each further round a readiness check, a requeue and a dequeue, and the last readiness
  check. \<open>cleanup_script\<close> is the script of one that carries out what \<^verbatim>\<open>usbcam_cleanup\<close>
  asks in world \<open>w\<close>: the requeue when a frame is locked, the stream-off when streaming is
  on.\<close>

definition interruptions :: "errno list \<Rightarrow> bool" where
  "interruptions es = (\<forall>e \<in> set es. e = EINTR \<or> e = EAGAIN)"

definition after_retries :: "errno list \<Rightarrow> errno option stream \<Rightarrow> errno option stream" where
  "after_retries es s = map Some es @- (None ## s)"

definition refused_after ::
  "errno list \<Rightarrow> errno \<Rightarrow> errno option stream \<Rightarrow> errno option stream" where
  "refused_after es e s = map Some es @- (Some e ## s)"

fun drain_script ::
  "(errno list \<times> errno list) list \<Rightarrow> errno option stream \<Rightarrow> errno option stream" where
  "drain_script [] s = None ## s"
| "drain_script ((rq, rd) # rest) s =
     None ## after_retries rq (after_retries rd (drain_script rest s))"

definition lock_script ::
  "errno list \<Rightarrow> (errno list \<times> errno list) list \<Rightarrow> errno option stream \<Rightarrow>
   errno option stream" where
  "lock_script r0 rest s = after_retries r0 (drain_script rest s)"

definition cleanup_script ::
  "world \<Rightarrow> errno list \<Rightarrow> errno list \<Rightarrow> errno option stream \<Rightarrow> errno option stream" where
  "cleanup_script w rq rs s =
     (let s1 = (if usbcam_has_stream w then after_retries rs s else s)
      in if usbcam_has_dqbuf w then after_retries rq s1 else s1)"

subsection \<open>Example sessions\<close>

text \<open>A camera with 4096-byte buffers, opened with two buffers; the driver then finishes
  two frames (\<open>demo_ready\<close>), and \<^verbatim>\<open>usbcam_lock\<close> is called (\<open>demo_locked\<close>).
  \<open>demo_initialised\<close> is the session right after \<^verbatim>\<open>usbcam_init\<close>.\<close>

definition demo_driver :: driver where
  "demo_driver =
     \<lparr>faults = sconst None, device_fd = 3, negotiate = (\<lambda>fmt. fmt), grant = (\<lambda>n. n),
      buffer_size = (\<lambda>i. 4096), buffer_offset = (\<lambda>i. i * 4096),
      map_base = (\<lambda>offset. 0x7f0000000000 + ucast offset),
      incoming = [], outgoing = [], held = [], trace = []\<rparr>"

definition demo_opt :: usbcam_opt_t where
  "demo_opt =
     \<lparr>device_name = ''/dev/video0'', buffers = 2, pixel_format = 0x47504A4D,
      width = 640, height = 480\<rparr>"

definition frame0 :: v4l2_buffer where
  "frame0 = \<lparr>index = 0, buf_type = 1, bytesused = 1000,
     timestamp = \<lparr>tv_sec = 100, tv_usec = 0\<rparr>, memory = 1, m_offset = 0, buf_length = 4096\<rparr>"

definition frame1 :: v4l2_buffer where
  "frame1 = \<lparr>index = 1, buf_type = 1, bytesused = 4096,
     timestamp = \<lparr>tv_sec = 100, tv_usec = 33000\<rparr>, memory = 1, m_offset = 4096,
     buf_length = 4096\<rparr>"

definition demo_events :: "event list" where
  "demo_events =
     [Init demo_opt, Completes 1000 \<lparr>tv_sec = 100, tv_usec = 0\<rparr>,
      Completes 9000 \<lparr>tv_sec = 100, tv_usec = 33000\<rparr>]"

definition demo_ready :: world where
  "demo_ready =
     \<lparr>usbcam_has_mmap = True, usbcam_has_dqbuf = False, usbcam_has_fd = True,
      usbcam_has_stream = True, usbcam_fd = 3, usbcam_buffers = 2,
      usbcam_buffer_start =
        (replicate usbcam_max_buffers 0)[0 := 0x7f0000000000, 1 := 0x7f0000001000],
      usbcam_buffer_length = (replicate usbcam_max_buffers 0)[0 := 4096, 1 := 4096],
      usbcam_dqbuf = zero_buffer,
      drv = demo_driver
        \<lparr>outgoing := [frame0, frame1],
         trace := [Open, SetFormat, RequestBuffers 2, QueryBuffer 0, MapBuffer 0,
                   QueryBuffer 1, MapBuffer 4096, StreamOn, Enqueue 0, Enqueue 1]\<rparr>\<rparr>"

definition demo_initialised :: world where
  "demo_initialised =
     demo_ready\<lparr>drv := (drv demo_ready)\<lparr>incoming := [0, 1], outgoing := []\<rparr>\<rparr>"

definition demo_locked :: world where
  "demo_locked =
     demo_ready\<lparr>usbcam_has_dqbuf := True, usbcam_dqbuf := frame1,
       drv := (drv demo_ready)
         \<lparr>incoming := [0], outgoing := [], held := [1],
          trace := trace (drv demo_ready) @ [Dequeue 0, Poll, Enqueue 0, Dequeue 1, Poll]\<rparr>\<rparr>"

text \<open>The world in which \<^verbatim>\<open>usbcam_lock\<close> on \<open>demo_ready\<close> crashes when it is given no
  timestamp pointer: both frames are dequeued, nothing is recorded as locked.\<close>

definition demo_null_crash :: world where
  "demo_null_crash = demo_ready\<lparr>drv := drv demo_locked\<rparr>"

text \<open>The sessions after \<^verbatim>\<open>usbcam_cleanup\<close> on \<open>demo_locked\<close> and on
  \<open>demo_initialised\<close>.\<close>

definition demo_closed :: world where
  "demo_closed =
     demo_locked\<lparr>usbcam_has_dqbuf := False, usbcam_has_mmap := False,
       usbcam_has_stream := False, usbcam_has_fd := False,
       drv := (drv demo_locked)
         \<lparr>incoming := [], outgoing := [], held := [],
          trace := trace (drv demo_locked) @
            [Enqueue 1, UnmapBuffer 0x7f0000000000 4096, UnmapBuffer 0x7f0000001000 4096,
             StreamOff, Close 3]\<rparr>\<rparr>"

definition demo_torn_down :: world where
  "demo_torn_down =
     demo_ready\<lparr>usbcam_has_mmap := False, usbcam_has_stream := False, usbcam_has_fd := False,
       drv := (drv demo_ready)
         \<lparr>outgoing := [],
          trace := trace (drv demo_ready) @
            [UnmapBuffer 0x7f0000000000 4096, UnmapBuffer 0x7f0000001000 4096,
             StreamOff, Close 3]\<rparr>\<rparr>"

text \<open>\<open>demo_ready\<close> with a driver whose second call from here on fails with
  \<^verbatim>\<open>ENOMEM\<close>, and the world after the first call of \<^verbatim>\<open>usbcam_lock\<close> to that driver.\<close>

definition poll_error_script :: "errno option stream" where
  "poll_error_script = None ## Some ENOMEM ## sconst None"

definition demo_poll_error :: world where
  "demo_poll_error = demo_ready\<lparr>drv := (drv demo_ready)\<lparr>faults := poll_error_script\<rparr>\<rparr>"

definition demo_after_dequeue :: world where
  "demo_after_dequeue =
     demo_ready\<lparr>drv := (drv demo_ready)
       \<lparr>faults := Some ENOMEM ## sconst None, outgoing := [frame1], held := [0],
        trace := trace (drv demo_ready) @ [Dequeue 0]\<rparr>\<rparr>"

text \<open>\<open>demo_locked\<close> with a device that has been unplugged: the next request fails with
  \<^verbatim>\<open>ENODEV\<close>.\<close>

definition unplugged_script :: "errno option stream" where
  "unplugged_script = Some ENODEV ## sconst None"

definition demo_unplugged :: world where
  "demo_unplugged = demo_locked\<lparr>drv := (drv demo_locked)\<lparr>faults := unplugged_script\<rparr>\<rparr>"

text \<open>A camera that settles on another width than the one asked for: \<^verbatim>\<open>usbcam_init\<close>
  gives up after \<^verbatim>\<open>VIDIOC_S_FMT\<close> with the device open (\<open>demo_abandoned\<close>);
  \<open>demo_abandoned_closed\<close> is that world after \<^verbatim>\<open>usbcam_cleanup\<close>.\<close>

definition picky_driver :: driver where
  "picky_driver = demo_driver\<lparr>negotiate := (\<lambda>fmt. fmt\<lparr>pix_width := 320\<rparr>)\<rparr>"

definition demo_abandoned :: world where
  "demo_abandoned =
     (program_start picky_driver)
       \<lparr>usbcam_fd := 3, usbcam_has_fd := True,
        drv := picky_driver\<lparr>trace := [Open, SetFormat]\<rparr>\<rparr>"

definition demo_abandoned_closed :: world where
  "demo_abandoned_closed =
     (program_start picky_driver)
       \<lparr>usbcam_fd := 3, drv := picky_driver\<lparr>trace := [Open, SetFormat, Close 3]\<rparr>\<rparr>"

text \<open>\<open>demo_interrupted\<close>: \<open>demo_ready\<close> with a driver that interrupts the requests of the
  coming \<^verbatim>\<open>usbcam_lock\<close>. \<open>demo_stale_locked\<close>: the world \<^verbatim>\<open>usbcam_lock\<close> leaves from
  \<open>demo_poll_error\<close>. \<open>demo_ready_unplugged\<close>: \<open>demo_ready\<close> with the device unplugged.
  \<open>demo_unlocked\<close>: \<open>demo_locked\<close> after \<^verbatim>\<open>usbcam_unlock\<close>. \<open>demo_locked_interrupted\<close>:
  \<open>demo_locked\<close> with a driver that interrupts the next request twice. \<open>demo_stalled\<close>:
  \<open>demo_initialised\<close> with a driver that interrupts the next request and then refuses it
  with \<^verbatim>\<open>EIO\<close>.\<close>

definition interrupted_script :: "errno option stream" where
  "interrupted_script = lock_script [EINTR] [([EAGAIN, EINTR], [EINTR])] (sconst None)"

definition demo_interrupted :: world where
  "demo_interrupted = demo_ready\<lparr>drv := (drv demo_ready)\<lparr>faults := interrupted_script\<rparr>\<rparr>"

definition demo_stale_locked :: world where
  "demo_stale_locked =
     demo_ready\<lparr>usbcam_has_dqbuf := True, usbcam_dqbuf := frame0,
       drv := (drv demo_ready)
         \<lparr>outgoing := [frame1], held := [0],
          trace := trace (drv demo_ready) @ [Dequeue 0]\<rparr>\<rparr>"

definition demo_ready_unplugged :: world where
  "demo_ready_unplugged = demo_ready\<lparr>drv := (drv demo_ready)\<lparr>faults := unplugged_script\<rparr>\<rparr>"

definition demo_unlocked :: world where
  "demo_unlocked =
     demo_locked\<lparr>usbcam_has_dqbuf := False,
       drv := (drv demo_locked)
         \<lparr>incoming := [0, 1], held := [],
          trace := trace (drv demo_locked) @ [Enqueue 1]\<rparr>\<rparr>"

definition demo_locked_interrupted :: world where
  "demo_locked_interrupted =
     demo_locked\<lparr>drv := (drv demo_locked)
       \<lparr>faults := after_retries [EINTR, EAGAIN] (sconst None)\<rparr>\<rparr>"

definition demo_stalled :: world where
  "demo_stalled =
     demo_initialised\<lparr>drv := (drv demo_initialised)
       \<lparr>faults := refused_after [EAGAIN] EIO (sconst None)\<rparr>\<rparr>"

section \<open>Invariants\<close>

subsection \<open>What a call leaves unchanged\<close>

text \<open>\<open>same_device\<close>: the answers of the device are those of before. \<open>same_queues\<close>: the
  driver's queues are. \<open>same_flags\<close>: the four flags of the session are. \<open>unwound\<close>: the
  other variables of the session and the device are.\<close>

definition same_device :: "driver \<Rightarrow> driver \<Rightarrow> bool" where
  "same_device d d' =
     (device_fd d' = device_fd d \<and> negotiate d' = negotiate d \<and> grant d' = grant d \<and>
      buffer_size d' = buffer_size d \<and> buffer_offset d' = buffer_offset d \<and>
      map_base d' = map_base d)"

definition same_queues :: "driver \<Rightarrow> driver \<Rightarrow> bool" where
  "same_queues d d' =
     (incoming d' = incoming d \<and> outgoing d' = outgoing d \<and> held d' = held d)"

definition same_flags :: "world \<Rightarrow> world \<Rightarrow> bool" where
  "same_flags w w' =
     (usbcam_has_mmap w' = usbcam_has_mmap w \<and> usbcam_has_dqbuf w' = usbcam_has_dqbuf w \<and>
      usbcam_has_fd w' = usbcam_has_fd w \<and> usbcam_has_stream w' = usbcam_has_stream w)"

definition unwound :: "world \<Rightarrow> world \<Rightarrow> bool" where
  "unwound w w' =
     (usbcam_fd w' = usbcam_fd w \<and> usbcam_buffers w' = usbcam_buffers w \<and>
      usbcam_buffer_start w' = usbcam_buffer_start w \<and>
      usbcam_buffer_length w' = usbcam_buffer_length w \<and>
      usbcam_dqbuf w' = usbcam_dqbuf w \<and> same_device (drv w) (drv w'))"

text \<open>\<open>ensures m Q A\<close>: if the call \<open>m\<close> returns, its value and world satisfy \<open>Q\<close>; if it
  ends the process, the failure and the world at that moment satisfy \<open>A\<close>.\<close>

definition ensures ::
  "'a outcome option \<Rightarrow> ('a \<Rightarrow> world \<Rightarrow> bool) \<Rightarrow> (failure \<Rightarrow> world \<Rightarrow> bool) \<Rightarrow> bool" where
  "ensures m Q A =
     (case m of None \<Rightarrow> True | Some (Returns a w) \<Rightarrow> Q a w | Some (Aborts f w) \<Rightarrow> A f w)"

text \<open>\<open>returns m Q\<close>: the call \<open>m\<close> returns, and its value and world satisfy \<open>Q\<close>.
  \<open>aborts_with m f\<close>: the call \<open>m\<close> ends the process with failure \<open>f\<close>.\<close>

definition returns :: "'a outcome option \<Rightarrow> ('a \<Rightarrow> world \<Rightarrow> bool) \<Rightarrow> bool" where
  "returns m Q = (\<exists>a w. m = Some (Returns a w) \<and> Q a w)"

definition aborts_with :: "'a outcome option \<Rightarrow> failure \<Rightarrow> bool" where
  "aborts_with m f = (\<exists>w. m = Some (Aborts f w))"

subsection \<open>The state of a session between two calls\<close>

text \<open>
  \<open>pool_mapped\<close>: every slot below \<^verbatim>\<open>usbcam_buffers\<close> records the address at which the
  driver mapped that buffer and the buffer's length. \<open>in_pool\<close>: a dequeued buffer names a
  slot of the pool and uses no more bytes than the buffer is long. \<open>queues_in_pool\<close>: every
  buffer in the driver's queues, and the locked one, is in the pool.

  \<open>consistent\<close> holds of every world between two calls of a live session (shown below): the
  arrays have their declared size; the flags are set in the order open, mapped, streaming,
  locked; the pool is mapped when \<^verbatim>\<open>usbcam_has_mmap\<close> is set; the application holds the
  locked buffer and no other; the queues are within the pool while streaming and empty
  otherwise.

  \<open>teardown_ready\<close> is the part of it that \<^verbatim>\<open>usbcam_cleanup\<close> relies on; it also holds of
  the world in which \<^verbatim>\<open>usbcam_init\<close> gives up. \<open>quiescent\<close>: no flag is set.
\<close>

definition pool_mapped :: "world \<Rightarrow> bool" where
  "pool_mapped w =
     (\<forall>i < nat (usbcam_buffers w).
        usbcam_buffer_start w ! i = map_base (drv w) (buffer_offset (drv w) (of_nat i)) \<and>
        usbcam_buffer_length w ! i = buffer_size (drv w) (of_nat i))"

definition in_pool :: "world \<Rightarrow> v4l2_buffer \<Rightarrow> bool" where
  "in_pool w b =
     (unat (index b) < nat (usbcam_buffers w) \<and> bytesused b \<le> buffer_size (drv w) (index b))"

definition queues_in_pool :: "world \<Rightarrow> bool" where
  "queues_in_pool w =
     ((\<forall>b \<in> set (outgoing (drv w)). in_pool w b) \<and>
      (\<forall>i \<in> set (incoming (drv w)). unat i < nat (usbcam_buffers w)) \<and>
      (usbcam_has_dqbuf w \<longrightarrow> in_pool w (usbcam_dqbuf w)))"

definition consistent :: "world \<Rightarrow> bool" where
  "consistent w =
     (length (usbcam_buffer_start w) = usbcam_max_buffers \<and>
      length (usbcam_buffer_length w) = usbcam_max_buffers \<and>
      (usbcam_has_dqbuf w \<longrightarrow> usbcam_has_stream w) \<and>
      (usbcam_has_stream w \<longrightarrow> usbcam_has_mmap w) \<and>
      (usbcam_has_mmap w \<longrightarrow> usbcam_has_fd w) \<and>
      (usbcam_has_mmap w \<longrightarrow>
         0 < usbcam_buffers w \<and> usbcam_buffers w \<le> int usbcam_max_buffers \<and> pool_mapped w) \<and>
      held (drv w) = (if usbcam_has_dqbuf w then [index (usbcam_dqbuf w)] else []) \<and>
      (if usbcam_has_stream w then queues_in_pool w
       else incoming (drv w) = [] \<and> outgoing (drv w) = []))"

definition teardown_ready :: "world \<Rightarrow> bool" where
  "teardown_ready w =
     ((usbcam_has_dqbuf w \<or> usbcam_has_stream w \<or> usbcam_has_mmap w \<longrightarrow> usbcam_has_fd w) \<and>
      (usbcam_has_mmap w \<longrightarrow> nat (usbcam_buffers w) \<le> usbcam_max_buffers) \<and>
      (\<not> usbcam_has_fd w \<longrightarrow> idle (drv w)) \<and>
      length (usbcam_buffer_start w) = usbcam_max_buffers \<and>
      length (usbcam_buffer_length w) = usbcam_max_buffers)"

definition quiescent :: "world \<Rightarrow> bool" where
  "quiescent w =
     (\<not> usbcam_has_fd w \<and> \<not> usbcam_has_mmap w \<and> \<not> usbcam_has_stream w \<and>
      \<not> usbcam_has_dqbuf w)"

text \<open>What an observer of the session can tell apart: the four flags and the driver's
  queues. The descriptor, the buffer count, the two arrays and \<^verbatim>\<open>usbcam_dqbuf\<close> keep stale
  values after a teardown; no operation reads them while the flags are clear.\<close>

definition observable ::
  "world \<Rightarrow> bool \<times> bool \<times> bool \<times> bool \<times> u32 list \<times> v4l2_buffer list \<times> u32 list" where
  "observable w =
     (usbcam_has_fd w, usbcam_has_mmap w, usbcam_has_stream w, usbcam_has_dqbuf w,
      incoming (drv w), outgoing (drv w), held (drv w))"

subsection \<open>Stages of usbcam\_init and usbcam\_lock\<close>

text \<open>\<open>fresh\<close>: after the teardown that opens \<^verbatim>\<open>usbcam_init\<close>. \<open>opened\<close>: the device is
  open and nothing else is set up. \<open>mapped_at w i\<close>: slot \<open>i\<close> is filled in. \<open>streaming\<close>:
  streaming is on and no frame is locked. \<open>holding buf w\<close>: inside \<^verbatim>\<open>usbcam_lock\<close>, with
  \<open>buf\<close> dequeued and not yet recorded. \<open>drained\<close> and \<open>locked_result\<close>: what the drain loop
  and \<^verbatim>\<open>usbcam_lock\<close> establish.\<close>

definition fresh :: "world \<Rightarrow> bool" where
  "fresh w = (consistent w \<and> quiescent w \<and> idle (drv w))"

definition opened :: "world \<Rightarrow> bool" where
  "opened w =
     (length (usbcam_buffer_start w) = usbcam_max_buffers \<and>
      length (usbcam_buffer_length w) = usbcam_max_buffers \<and>
      usbcam_has_fd w \<and> \<not> usbcam_has_mmap w \<and> \<not> usbcam_has_stream w \<and>
      \<not> usbcam_has_dqbuf w \<and> idle (drv w))"

definition mapped_at :: "world \<Rightarrow> nat \<Rightarrow> bool" where
  "mapped_at w i =
     (usbcam_buffer_start w ! i = map_base (drv w) (buffer_offset (drv w) (of_nat i)) \<and>
      usbcam_buffer_length w ! i = buffer_size (drv w) (of_nat i))"

definition streaming :: "world \<Rightarrow> bool" where
  "streaming w = (consistent w \<and> usbcam_has_stream w \<and> \<not> usbcam_has_dqbuf w)"

definition holding :: "v4l2_buffer \<Rightarrow> world \<Rightarrow> bool" where
  "holding buf w =
     (\<not> usbcam_has_dqbuf w \<and> consistent (w\<lparr>usbcam_dqbuf := buf, usbcam_has_dqbuf := True\<rparr>))"

definition drained :: "world \<Rightarrow> v4l2_buffer outcome \<Rightarrow> bool" where
  "drained w out =
     (case out of
        Returns b w' \<Rightarrow> holding b w' \<and> unwound w w' \<and> same_flags w w'
      | Aborts f w' \<Rightarrow> True)"

definition locked_result :: "world \<Rightarrow> addr \<times> u32 \<times> timeval \<Rightarrow> world \<Rightarrow> bool" where
  "locked_result w r w' =
     (consistent w' \<and> \<not> usbcam_has_dqbuf w \<and> usbcam_has_dqbuf w' \<and>
      usbcam_buffers w' = usbcam_buffers w \<and>
      usbcam_buffer_start w' = usbcam_buffer_start w \<and>
      usbcam_buffer_length w' = usbcam_buffer_length w \<and>
      same_device (drv w) (drv w') \<and>
      r = (usbcam_buffer_start w ! unat (index (usbcam_dqbuf w')),
           bytesused (usbcam_dqbuf w'), timestamp (usbcam_dqbuf w')))"

subsection \<open>The order of acquisition and release\<close>

text \<open>The four resources of a session, the call that acquires each and the call that
  releases it. The order in which a trace acquires (releases) them lists each resource
  once per run of calls on it.\<close>

datatype stage = Device | Pool | Streaming | Frame

fun acquires :: "call \<Rightarrow> stage list" where
  "acquires Open = [Device]"
| "acquires (MapBuffer offset) = [Pool]"
| "acquires StreamOn = [Streaming]"
| "acquires (Dequeue i) = [Frame]"
| "acquires c = []"

fun releases :: "call \<Rightarrow> stage list" where
  "releases (Close fd) = [Device]"
| "releases (UnmapBuffer start len) = [Pool]"
| "releases StreamOff = [Streaming]"
| "releases (Enqueue i) = [Frame]"
| "releases c = []"

definition acquisition_order :: "call list \<Rightarrow> stage list" where
  "acquisition_order t = remdups_adj (concat (map acquires t))"

definition release_order :: "call list \<Rightarrow> stage list" where
  "release_order t = remdups_adj (concat (map releases t))"

section \<open>Properties\<close>

subsection \<open>Unfolding the model\<close>

lemmas driver_defs = syscall_def performs_def VIDIOC_S_FMT_def VIDIOC_REQBUFS_def
  VIDIOC_QUERYBUF_def VIDIOC_STREAMON_def VIDIOC_STREAMOFF_def VIDIOC_QBUF_def VIDIOC_DQBUF_def
  v4l2_ioctl_def v4l2_open_def mmap_def select_readable_def munmap_def close_def
  driver_completes_def

lemmas program_defs = usbcam_ioctl_def ioctl_retry.simps unmap_buffer_def usbcam_cleanup_def
  allocate_buffer_def queue_buffer_def usbcam_init_def usbcam_unlock_def lock_drain.simps
  usbcam_lock_def program_start_def usbcam_max_buffers_def zero_buffer_def zero_timeval_def
  V4L2_BUF_TYPE_VIDEO_CAPTURE_def V4L2_MEMORY_MMAP_def MAP_FAILED_def returned_def result_of_def

lemmas demo_defs = demo_driver_def demo_opt_def frame0_def frame1_def demo_events_def
  demo_ready_def demo_initialised_def demo_locked_def demo_null_crash_def demo_closed_def
  demo_torn_down_def poll_error_script_def demo_poll_error_def demo_after_dequeue_def
  unplugged_script_def demo_unplugged_def picky_driver_def demo_abandoned_def
  demo_abandoned_closed_def

lemmas script_defs = interruptions_def after_retries_def refused_after_def lock_script_def
  cleanup_script_def interrupted_script_def demo_interrupted_def demo_stale_locked_def
  demo_ready_unplugged_def demo_unlocked_def demo_locked_interrupted_def demo_stalled_def

lemma andthen_simps [simp]:
  "andthen None k = None"
  "andthen (Some (Aborts f w)) k = Some (Aborts f w)"
  "andthen (Some (Returns a w)) k = k a w"
  by (simp_all add: andthen_def)

lemma andthen_Returns:
  "andthen m k = Some (Returns r w') \<longleftrightarrow>
     (\<exists>a w. m = Some (Returns a w) \<and> k a w = Some (Returns r w'))"
  by (auto simp: andthen_def split: option.splits outcome.splits)

lemma usbcam_assert_simps [simp]:
  "c \<Longrightarrow> usbcam_assert c msg w = Some (Returns () w)"
  "\<not> c \<Longrightarrow> usbcam_assert c msg w = Some (Aborts (AssertFailed msg) w)"
  by (simp_all add: usbcam_assert_def)

lemma store_through_simps [simp]:
  "store_through NullPtr w = Some (Aborts NullDereference w)"
  "store_through ValidPtr w = Some (Returns () w)"
  by (simp_all add: store_through_def)

lemma performs_fields [simp]:
  "faults (performs c d) = faults d"
  "device_fd (performs c d) = device_fd d"
  "negotiate (performs c d) = negotiate d"
  "grant (performs c d) = grant d"
  "buffer_size (performs c d) = buffer_size d"
  "buffer_offset (performs c d) = buffer_offset d"
  "map_base (performs c d) = map_base d"
  "incoming (performs c d) = incoming d"
  "outgoing (performs c d) = outgoing d"
  "held (performs c d) = held d"
  "trace (performs c d) = trace d @ [c]"
  by (simp_all add: performs_def)

lemma quiet_simps [simp]:
  "quiet (performs c d) = quiet d"
  "quiet (d\<lparr>incoming := i\<rparr>) = quiet d"
  "quiet (d\<lparr>outgoing := ou\<rparr>) = quiet d"
  "quiet (d\<lparr>held := h\<rparr>) = quiet d"
  "quiet (d\<lparr>trace := t\<rparr>) = quiet d"
  by (simp_all add: quiet_def performs_def)

lemma run_append:
  "run (xs @ ys) w = (case run xs w of None \<Rightarrow> None | Some w' \<Rightarrow> run ys w')"
  by (induction xs arbitrary: w) (simp_all split: option.splits)

lemma returned_Some: "returned m = Some w' \<longleftrightarrow> (\<exists>a. m = Some (Returns a w'))"
  by (auto simp: returned_def split: option.splits outcome.splits)

subsection \<open>The example sessions are what the code computes\<close>

lemma demo_idle: "idle demo_driver" "idle picky_driver"
  by (simp_all add: idle_def demo_defs)

lemma demo_ready_reached: "run demo_events (program_start demo_driver) = Some demo_ready"
  by (simp add: driver_defs program_defs demo_defs upt_rec)

lemma demo_initialised_reached:
  "run [Init demo_opt] (program_start demo_driver) = Some demo_initialised"
  by (simp add: driver_defs program_defs demo_defs upt_rec)

lemma demo_init_returns:
  "usbcam_init demo_opt (program_start demo_driver) = Some (Returns () demo_initialised)"
  by (simp add: driver_defs program_defs demo_defs upt_rec)

lemma demo_locked_reached:
  "run (demo_events @ [Lock ValidPtr ValidPtr ValidPtr]) (program_start demo_driver) =
   Some demo_locked"
  by (simp add: driver_defs program_defs demo_defs upt_rec)

lemma demo_lock_returns:
  "usbcam_lock ValidPtr ValidPtr ValidPtr demo_ready =
     Some (Returns (0x7f0000001000, 4096, \<lparr>tv_sec = 100, tv_usec = 33000\<rparr>) demo_locked)"
  by (simp add: demo_defs driver_defs program_defs)

lemma demo_closed_reached: "usbcam_cleanup demo_locked = Some (Returns () demo_closed)"
  by (simp add: driver_defs program_defs demo_defs upt_rec)

lemma demo_torn_down_reached: "usbcam_cleanup demo_initialised = Some (Returns () demo_torn_down)"
  by (simp add: driver_defs program_defs demo_defs upt_rec)

lemma demo_poll_error_reached:
  "run demo_events
     (program_start (demo_driver\<lparr>faults :=
        [None, None, None, None, None, None, None, None, None, None] @- poll_error_script\<rparr>)) =
   Some demo_poll_error"
  by (simp add: driver_defs program_defs demo_defs upt_rec)

lemma demo_unplugged_reached:
  "run (demo_events @ [Lock ValidPtr ValidPtr ValidPtr])
     (program_start (demo_driver\<lparr>faults :=
        [None, None, None, None, None, None, None, None, None, None,
         None, None, None, None, None] @- unplugged_script\<rparr>)) =
   Some demo_unplugged"
  by (simp add: driver_defs program_defs demo_defs upt_rec)

lemma demo_abandoned_reached:
  "usbcam_init demo_opt (program_start picky_driver) =
     Some (Aborts (AssertFailed ''Did not get the requested width'') demo_abandoned)"
  by (simp add: driver_defs program_defs demo_defs upt_rec)

lemma demo_abandoned_closed_reached:
  "usbcam_cleanup demo_abandoned = Some (Returns () demo_abandoned_closed)"
  by (simp add: driver_defs program_defs demo_defs upt_rec)

subsection \<open>A driver that carries out every request\<close>

lemma syscall_quiet:
  assumes "quiet d"
  shows "syscall normal d = normal d"
proof -
  have same: "d\<lparr>faults := sconst None\<rparr> = d"
    using assms by (cases d) (simp add: quiet_def)
  have "syscall normal d = normal (d\<lparr>faults := sconst None\<rparr>)"
    using assms by (simp add: syscall_def quiet_def)
  then show ?thesis
    by (simp only: same)
qed

lemma ioctl_QBUF_quiet:
  "usbcam_has_fd w \<Longrightarrow> quiet (drv w) \<Longrightarrow>
   usbcam_ioctl (VIDIOC_QBUF buf) w =
     Some (Returns buf (w\<lparr>drv := performs (Enqueue (index buf))
        ((drv w)\<lparr>incoming := incoming (drv w) @ [index buf],
                  held := remove1 (index buf) (held (drv w))\<rparr>)\<rparr>))"
  by (simp add: usbcam_ioctl_def ioctl_retry.simps v4l2_ioctl_def VIDIOC_QBUF_def syscall_quiet)

lemma ioctl_DQBUF_quiet:
  "usbcam_has_fd w \<Longrightarrow> quiet (drv w) \<Longrightarrow> outgoing (drv w) = b # bs \<Longrightarrow>
   usbcam_ioctl (VIDIOC_DQBUF buf) w =
     Some (Returns b (w\<lparr>drv := performs (Dequeue (index b))
        ((drv w)\<lparr>outgoing := bs, held := held (drv w) @ [index b]\<rparr>)\<rparr>))"
  by (simp add: usbcam_ioctl_def ioctl_retry.simps v4l2_ioctl_def VIDIOC_DQBUF_def syscall_quiet)

lemma ioctl_STREAMOFF_quiet:
  "usbcam_has_fd w \<Longrightarrow> quiet (drv w) \<Longrightarrow>
   usbcam_ioctl (VIDIOC_STREAMOFF type) w =
     Some (Returns type (w\<lparr>drv := performs StreamOff
        ((drv w)\<lparr>incoming := [], outgoing := [], held := []\<rparr>)\<rparr>))"
  by (simp add: usbcam_ioctl_def ioctl_retry.simps v4l2_ioctl_def VIDIOC_STREAMOFF_def
      syscall_quiet)

lemma select_quiet:
  "quiet d \<Longrightarrow> select_readable fd d = (if outgoing d = [] then 0 else 1, performs Poll d)"
  by (simp add: select_readable_def syscall_quiet)

text \<open>The drain loop on a quiet driver, by induction on the queue of filled buffers: it
  ends holding the last of them, and every buffer it held before is back in \<open>incoming\<close>.\<close>

lemma lock_drain_quiet:
  "usbcam_has_fd w \<Longrightarrow> quiet (drv w) \<Longrightarrow> outgoing (drv w) = bs \<Longrightarrow>
   held (drv w) = [index buf] \<Longrightarrow>
   \<exists>d. lock_drain buf w = Some (Returns (last (buf # bs)) (w\<lparr>drv := d\<rparr>)) \<and>
       incoming d = incoming (drv w) @ map index (butlast (buf # bs)) \<and>
       outgoing d = [] \<and> held d = [index (last (buf # bs))] \<and> quiet d"
proof (induction bs arbitrary: buf w)
  case Nil
  then show ?case
    by (subst lock_drain.simps)
      (auto simp: select_quiet intro!: exI [of _ "performs Poll (drv w)"])
next
  case (Cons b bs)
  let ?w2 = "w\<lparr>drv := performs (Dequeue (index b))
      ((performs (Enqueue (index buf))
         ((performs Poll (drv w))\<lparr>incoming := incoming (drv w) @ [index buf], held := []\<rparr>))
       \<lparr>outgoing := bs, held := [index b]\<rparr>)\<rparr>"
  have step: "lock_drain buf w = lock_drain b ?w2"
    using Cons.prems
    by (subst lock_drain.simps) (simp add: select_quiet ioctl_QBUF_quiet ioctl_DQBUF_quiet)
  have "\<exists>d. lock_drain b ?w2 = Some (Returns (last (b # bs)) (?w2\<lparr>drv := d\<rparr>)) \<and>
       incoming d = incoming (drv ?w2) @ map index (butlast (b # bs)) \<and>
       outgoing d = [] \<and> held d = [index (last (b # bs))] \<and> quiet d"
    using Cons.prems by (intro Cons.IH) simp_all
  then show ?case
    using step by auto
qed

lemma unmap_loop_Returns:
  "\<forall>i\<in>set xs. i < usbcam_max_buffers \<Longrightarrow>
   for_loop xs unmap_buffer w =
     Some (Returns () (w\<lparr>drv := (drv w)\<lparr>trace := trace (drv w) @
       map (\<lambda>i. UnmapBuffer (usbcam_buffer_start w ! i) (usbcam_buffer_length w ! i)) xs\<rparr>\<rparr>))"
proof (induction xs arbitrary: w)
  case Nil
  then show ?case by simp
next
  case (Cons i xs)
  then have "unmap_buffer i w = Some (Returns ()
      (w\<lparr>drv := munmap (usbcam_buffer_start w ! i) (usbcam_buffer_length w ! i) (drv w)\<rparr>))"
    by (simp add: unmap_buffer_def)
  then show ?case
    using Cons by (simp add: munmap_def performs_def)
qed

subsection \<open>Any driver: the retry loop and what a request can do\<close>

text \<open>By fixpoint induction on the retry loop: when it ends, the driver has either refused
  the request with a real error and is otherwise untouched, or has carried it out once,
  after some entries of the fault script.\<close>

lemma ioctl_retry_result:
  assumes "ioctl_retry fd (\<lambda>fd. syscall normal) d = Some (res, d')"
    and "\<And>d e d'. normal d \<noteq> (Err e, d')"
  shows "\<exists>fs. (case res of Inl e \<Rightarrow> d' = d\<lparr>faults := fs\<rparr>
                | Inr a \<Rightarrow> normal (d\<lparr>faults := fs\<rparr>) = (Ok a, d'))"
proof -
  have "req = (\<lambda>fd. syscall normal) \<longrightarrow>
      (\<exists>fs. (case fst y of Inl e \<Rightarrow> snd y = d\<lparr>faults := fs\<rparr>
                | Inr a \<Rightarrow> normal (d\<lparr>faults := fs\<rparr>) = (Ok a, snd y)))"
    if "ioctl_retry fd req d = Some y" for req y
  proof (rule ioctl_retry.raw_induct [where P = "\<lambda>fd req d y. req = (\<lambda>fd. syscall normal) \<longrightarrow>
      (\<exists>fs. (case fst y of Inl e \<Rightarrow> snd y = d\<lparr>faults := fs\<rparr>
                | Inr a \<Rightarrow> normal (d\<lparr>faults := fs\<rparr>) = (Ok a, snd y)))", OF _ that], goal_cases)
    case (1 retry fd req d y)
    show ?case
    proof
      assume req: "req = (\<lambda>fd. syscall normal)"
      show "\<exists>fs. (case fst y of Inl e \<Rightarrow> snd y = d\<lparr>faults := fs\<rparr>
                | Inr a \<Rightarrow> normal (d\<lparr>faults := fs\<rparr>) = (Ok a, snd y))"
      proof (cases "shd (faults d)")
        case None
        then have call: "v4l2_ioctl fd req d = normal (d\<lparr>faults := stl (faults d)\<rparr>)"
          by (simp add: req v4l2_ioctl_def syscall_def)
        show ?thesis
        proof (cases "normal (d\<lparr>faults := stl (faults d)\<rparr>)")
          case (Pair r d2)
          then show ?thesis
            using 1(2) call assms(2) [of "d\<lparr>faults := stl (faults d)\<rparr>"]
            by (cases r) (auto intro: exI [of _ "stl (faults d)"])
        qed
      next
        case (Some e)
        then have call: "v4l2_ioctl fd req d = (Err e, d\<lparr>faults := stl (faults d)\<rparr>)"
          by (simp add: req v4l2_ioctl_def syscall_def)
        show ?thesis
        proof (cases "e = EINTR \<or> e = EAGAIN")
          case True
          then have "retry fd req (d\<lparr>faults := stl (faults d)\<rparr>) = Some y"
            using 1(2) call by auto
          from 1(1) [OF this] req show ?thesis
            by (auto split: sum.splits)
        next
          case False
          then show ?thesis
            using 1(2) call by (auto intro: exI [of _ "stl (faults d)"])
        qed
      qed
    qed
  qed
  from this [OF assms(1)] show ?thesis
    by (auto split: sum.splits)
qed

lemma usbcam_ioctl_cases:
  assumes "usbcam_ioctl (\<lambda>fd. syscall normal) w = Some out"
    and "\<And>d e d'. normal d \<noteq> (Err e, d')"
  shows "(\<not> usbcam_has_fd w \<and>
            out = Aborts (AssertFailed ''The camera device has not been opened yet!'') w) \<or>
         (usbcam_has_fd w \<and>
            (\<exists>fs e. out = Aborts (RequestFailed e) (w\<lparr>drv := (drv w)\<lparr>faults := fs\<rparr>\<rparr>))) \<or>
         (usbcam_has_fd w \<and>
            (\<exists>fs a d'. normal ((drv w)\<lparr>faults := fs\<rparr>) = (Ok a, d') \<and>
               out = Returns a (w\<lparr>drv := d'\<rparr>)))"
proof (cases "usbcam_has_fd w")
  case False
  then show ?thesis
    using assms(1) by (simp add: usbcam_ioctl_def)
next
  case True
  then obtain res d' where r: "ioctl_retry (usbcam_fd w) (\<lambda>fd. syscall normal) (drv w) = Some (res, d')"
    and out: "out = (case res of Inl e \<Rightarrow> Aborts (RequestFailed e) (w\<lparr>drv := d'\<rparr>)
                | Inr a \<Rightarrow> Returns a (w\<lparr>drv := d'\<rparr>))"
    using assms(1) by (auto simp: usbcam_ioctl_def split: option.splits sum.splits)
  from ioctl_retry_result [OF r assms(2)] out True show ?thesis
    by (cases res) auto
qed

lemma ensures_simps [simp]:
  "ensures None Q A"
  "ensures (Some (Returns a w)) Q A = Q a w"
  "ensures (Some (Aborts f w)) Q A = A f w"
  by (simp_all add: ensures_def)

lemma ensuresI:
  "(\<And>a w'. m = Some (Returns a w') \<Longrightarrow> Q a w') \<Longrightarrow> (\<And>f w'. m = Some (Aborts f w') \<Longrightarrow> A f w') \<Longrightarrow>
   ensures m Q A"
  by (auto simp: ensures_def split: option.splits outcome.splits)

lemma ensures_ReturnsD: "ensures m Q A \<Longrightarrow> m = Some (Returns a w') \<Longrightarrow> Q a w'"
  by simp

lemma ensures_AbortsD: "ensures m Q A \<Longrightarrow> m = Some (Aborts f w') \<Longrightarrow> A f w'"
  by simp

lemma ensures_andthen:
  assumes "ensures m Q' A" and "\<And>a w. Q' a w \<Longrightarrow> ensures (k a w) Q A"
  shows "ensures (andthen m k) Q A"
proof (cases m)
  case None
  then show ?thesis by simp
next
  case (Some out)
  show ?thesis
  proof (cases out)
    case (Returns a w)
    with Some assms show ?thesis by simp
  next
    case (Aborts f w)
    with Some assms(1) show ?thesis by simp
  qed
qed

lemma ensures_then_set:
  "ensures m (\<lambda>a w. Q () (g w)) A \<Longrightarrow> ensures (andthen m (\<lambda>_ w. Some (Returns () (g w)))) Q A"
  by (erule ensures_andthen) simp

lemma ensures_weaken:
  assumes "ensures m Q' A'" and "\<And>a w. Q' a w \<Longrightarrow> Q a w" and "\<And>f w. A' f w \<Longrightarrow> A f w"
  shows "ensures m Q A"
proof (cases m)
  case None
  then show ?thesis by simp
next
  case (Some out)
  with assms show ?thesis by (cases out) simp_all
qed

lemma ensures_assert:
  "(c \<Longrightarrow> Q () w) \<Longrightarrow> (\<not> c \<Longrightarrow> A (AssertFailed msg) w) \<Longrightarrow> ensures (usbcam_assert c msg w) Q A"
  by (cases c) simp_all

lemma ensures_ioctl:
  assumes "\<And>d e d'. normal d \<noteq> (Err e, d')"
    and "\<not> usbcam_has_fd w \<Longrightarrow>
           A (AssertFailed ''The camera device has not been opened yet!'') w"
    and "\<And>fs e. usbcam_has_fd w \<Longrightarrow> A (RequestFailed e) (w\<lparr>drv := (drv w)\<lparr>faults := fs\<rparr>\<rparr>)"
    and "\<And>fs a d'. usbcam_has_fd w \<Longrightarrow> normal ((drv w)\<lparr>faults := fs\<rparr>) = (Ok a, d') \<Longrightarrow>
           Q a (w\<lparr>drv := d'\<rparr>)"
  shows "ensures (usbcam_ioctl (\<lambda>fd. syscall normal) w) Q A"
proof (rule ensuresI)
  fix a w'
  assume "usbcam_ioctl (\<lambda>fd. syscall normal) w = Some (Returns a w')"
  from usbcam_ioctl_cases [OF this assms(1)] show "Q a w'"
    using assms(4) by auto
next
  fix f w'
  assume "usbcam_ioctl (\<lambda>fd. syscall normal) w = Some (Aborts f w')"
  from usbcam_ioctl_cases [OF this assms(1)] show "A f w'"
    using assms(2,3) by auto
qed

lemma ensures_for_loop:
  assumes "I pre w"
    and "\<And>pre i w. I pre w \<Longrightarrow> i \<in> set xs \<Longrightarrow> ensures (body i w) (\<lambda>_. I (pre @ [i])) A"
  shows "ensures (for_loop xs body w) (\<lambda>_. I (pre @ xs)) A"
  using assms
proof (induction xs arbitrary: pre w)
  case Nil
  then show ?case by simp
next
  case (Cons i xs)
  have first: "ensures (body i w) (\<lambda>_. I (pre @ [i])) A"
    using Cons.prems by simp
  have rest: "ensures (for_loop xs body w') (\<lambda>_. I ((pre @ [i]) @ xs)) A" if "I (pre @ [i]) w'" for w'
    using that Cons.prems(2) by (intro Cons.IH) simp_all
  show ?case
    using ensures_andthen [OF first rest] by simp
qed

lemma S_FMT_syscall:
  "VIDIOC_S_FMT fmt = (\<lambda>fd. syscall (\<lambda>d. (Ok (negotiate d fmt), performs SetFormat d)))"
  by (rule ext) (simp add: VIDIOC_S_FMT_def)

lemma REQBUFS_syscall:
  "VIDIOC_REQBUFS request = (\<lambda>fd. syscall (\<lambda>d.
     (Ok (request\<lparr>req_count := grant d (req_count request)\<rparr>),
      performs (RequestBuffers (grant d (req_count request)))
        (d\<lparr>incoming := [], outgoing := [], held := []\<rparr>))))"
  by (rule ext) (simp add: VIDIOC_REQBUFS_def)

lemma QUERYBUF_syscall:
  "VIDIOC_QUERYBUF info = (\<lambda>fd. syscall (\<lambda>d.
     (Ok (info\<lparr>buf_length := buffer_size d (index info),
               m_offset := buffer_offset d (index info)\<rparr>),
      performs (QueryBuffer (index info)) d)))"
  by (rule ext) (simp add: VIDIOC_QUERYBUF_def)

lemma STREAMON_syscall:
  "VIDIOC_STREAMON type = (\<lambda>fd. syscall (\<lambda>d. (Ok type, performs StreamOn d)))"
  by (rule ext) (simp add: VIDIOC_STREAMON_def)

lemma STREAMOFF_syscall:
  "VIDIOC_STREAMOFF type = (\<lambda>fd. syscall (\<lambda>d.
     (Ok type, performs StreamOff (d\<lparr>incoming := [], outgoing := [], held := []\<rparr>))))"
  by (rule ext) (simp add: VIDIOC_STREAMOFF_def)

lemma QBUF_syscall:
  "VIDIOC_QBUF buf = (\<lambda>fd. syscall (\<lambda>d. (Ok buf, performs (Enqueue (index buf))
        (d\<lparr>incoming := incoming d @ [index buf], held := remove1 (index buf) (held d)\<rparr>))))"
  by (rule ext) (simp add: VIDIOC_QBUF_def)

lemma DQBUF_syscall:
  "VIDIOC_DQBUF buf = (\<lambda>fd. syscall (\<lambda>d.
     case outgoing d of
       [] \<Rightarrow> (Blocks, d)
     | b # bs \<Rightarrow>
         (Ok b, performs (Dequeue (index b)) (d\<lparr>outgoing := bs, held := held d @ [index b]\<rparr>))))"
  by (rule ext) (simp add: VIDIOC_DQBUF_def)

lemma ensures_QBUF:
  assumes "\<not> usbcam_has_fd w \<Longrightarrow>
           A (AssertFailed ''The camera device has not been opened yet!'') w"
    and "\<And>fs e. usbcam_has_fd w \<Longrightarrow> A (RequestFailed e) (w\<lparr>drv := (drv w)\<lparr>faults := fs\<rparr>\<rparr>)"
    and "\<And>fs. usbcam_has_fd w \<Longrightarrow>
           Q buf (w\<lparr>drv := performs (Enqueue (index buf))
             ((drv w)\<lparr>faults := fs, incoming := incoming (drv w) @ [index buf],
                held := remove1 (index buf) (held (drv w))\<rparr>)\<rparr>)"
  shows "ensures (usbcam_ioctl (VIDIOC_QBUF buf) w) Q A"
  unfolding QBUF_syscall using assms by (intro ensures_ioctl) auto

lemma ensures_DQBUF:
  assumes "\<not> usbcam_has_fd w \<Longrightarrow>
           A (AssertFailed ''The camera device has not been opened yet!'') w"
    and "\<And>fs e. usbcam_has_fd w \<Longrightarrow> A (RequestFailed e) (w\<lparr>drv := (drv w)\<lparr>faults := fs\<rparr>\<rparr>)"
    and "\<And>fs b bs. usbcam_has_fd w \<Longrightarrow> outgoing (drv w) = b # bs \<Longrightarrow>
           Q b (w\<lparr>drv := performs (Dequeue (index b))
             ((drv w)\<lparr>faults := fs, outgoing := bs, held := held (drv w) @ [index b]\<rparr>)\<rparr>)"
  shows "ensures (usbcam_ioctl (VIDIOC_DQBUF buf) w) Q A"
  unfolding DQBUF_syscall using assms
  by (intro ensures_ioctl) (auto split: list.splits)

lemma ensures_STREAMOFF:
  assumes "\<not> usbcam_has_fd w \<Longrightarrow>
           A (AssertFailed ''The camera device has not been opened yet!'') w"
    and "\<And>fs e. usbcam_has_fd w \<Longrightarrow> A (RequestFailed e) (w\<lparr>drv := (drv w)\<lparr>faults := fs\<rparr>\<rparr>)"
    and "\<And>fs. usbcam_has_fd w \<Longrightarrow>
           Q type (w\<lparr>drv := performs StreamOff
             ((drv w)\<lparr>faults := fs, incoming := [], outgoing := [], held := []\<rparr>)\<rparr>)"
  shows "ensures (usbcam_ioctl (VIDIOC_STREAMOFF type) w) Q A"
  unfolding STREAMOFF_syscall using assms by (intro ensures_ioctl) auto

lemma ioctl_QBUF_cases:
  assumes "usbcam_ioctl (VIDIOC_QBUF buf) w = Some out"
  shows "(\<not> usbcam_has_fd w \<and>
            out = Aborts (AssertFailed ''The camera device has not been opened yet!'') w) \<or>
         (usbcam_has_fd w \<and>
            (\<exists>fs e. out = Aborts (RequestFailed e) (w\<lparr>drv := (drv w)\<lparr>faults := fs\<rparr>\<rparr>))) \<or>
         (usbcam_has_fd w \<and>
            (\<exists>fs. out = Returns buf (w\<lparr>drv := performs (Enqueue (index buf))
               ((drv w)\<lparr>faults := fs, incoming := incoming (drv w) @ [index buf],
                  held := remove1 (index buf) (held (drv w))\<rparr>)\<rparr>)))"
  using usbcam_ioctl_cases [OF assms [unfolded QBUF_syscall]] by auto

lemma ioctl_DQBUF_cases:
  assumes "usbcam_ioctl (VIDIOC_DQBUF buf) w = Some out"
  shows "(\<exists>f w'. out = Aborts f w') \<or>
         (usbcam_has_fd w \<and>
            (\<exists>fs b bs. outgoing (drv w) = b # bs \<and>
               out = Returns b (w\<lparr>drv := performs (Dequeue (index b))
                 ((drv w)\<lparr>faults := fs, outgoing := bs, held := held (drv w) @ [index b]\<rparr>)\<rparr>)))"
proof (cases out)
  case (Aborts f w')
  then show ?thesis by simp
next
  case (Returns a w')
  have "ensures (usbcam_ioctl (VIDIOC_DQBUF buf) w)
     (\<lambda>b w'. usbcam_has_fd w \<and> (\<exists>fs bs. outgoing (drv w) = b # bs \<and>
         w' = w\<lparr>drv := performs (Dequeue (index b))
                 ((drv w)\<lparr>faults := fs, outgoing := bs, held := held (drv w) @ [index b]\<rparr>)\<rparr>))
     (\<lambda>_ _. True)"
    by (rule ensures_DQBUF) auto
  from ensures_ReturnsD [OF this assms [unfolded Returns]] Returns show ?thesis
    by auto
qed

lemma select_cases:
  "select_readable fd d = (r, d') \<Longrightarrow>
     d' = d\<lparr>faults := stl (faults d)\<rparr> \<or> d' = performs Poll (d\<lparr>faults := stl (faults d)\<rparr>)"
  by (auto simp: select_readable_def syscall_def Let_def split: option.splits)

lemma open_cases:
  "v4l2_open name d = (fd, d') \<Longrightarrow>
     fd = - 1 \<and> d' = d\<lparr>faults := stl (faults d)\<rparr> \<or>
     fd = int (device_fd d) \<and> d' = performs Open (d\<lparr>faults := stl (faults d)\<rparr>)"
  by (auto simp: v4l2_open_def syscall_def Let_def split: option.splits)

lemma mmap_cases:
  "mmap len fd offset d = (p, d') \<Longrightarrow>
     p = MAP_FAILED \<and> d' = d\<lparr>faults := stl (faults d)\<rparr> \<or>
     p = map_base d offset \<and> d' = performs (MapBuffer offset) (d\<lparr>faults := stl (faults d)\<rparr>)"
  by (auto simp: mmap_def syscall_def Let_def split: option.splits)

lemma unwound_refl [simp]: "unwound w w"
  by (simp add: unwound_def same_device_def)

lemma same_flags_refl [simp]: "same_flags w w"
  by (simp add: same_flags_def)

lemma unwound_trans: "unwound w w1 \<Longrightarrow> unwound w1 w2 \<Longrightarrow> unwound w w2"
  by (simp add: unwound_def same_device_def)

lemma same_flags_trans: "same_flags w w1 \<Longrightarrow> same_flags w1 w2 \<Longrightarrow> same_flags w w2"
  by (simp add: same_flags_def)

subsection \<open>usbcam\_cleanup, step by step\<close>

lemma unmap_loop_cases:
  "for_loop xs unmap_buffer w = Some out \<Longrightarrow>
     (if \<forall>i\<in>set xs. i < usbcam_max_buffers
      then out = Returns () (w\<lparr>drv := (drv w)\<lparr>trace := trace (drv w) @
               map (\<lambda>i. UnmapBuffer (usbcam_buffer_start w ! i) (usbcam_buffer_length w ! i)) xs\<rparr>\<rparr>)
      else \<exists>w'. out = Aborts OutOfBounds w' \<and> unwound w w' \<and> same_flags w w')"
proof (induction xs arbitrary: w)
  case Nil
  then show ?case by simp
next
  case (Cons i xs)
  show ?case
  proof (cases "i < usbcam_max_buffers")
    case True
    let ?w1 = "w\<lparr>drv := munmap (usbcam_buffer_start w ! i) (usbcam_buffer_length w ! i) (drv w)\<rparr>"
    have "unmap_buffer i w = Some (Returns () ?w1)"
      using True by (simp add: unmap_buffer_def)
    then have "for_loop xs unmap_buffer ?w1 = Some out"
      using Cons.prems by simp
    from Cons.IH [OF this] True show ?thesis
      by (auto simp: munmap_def performs_def unwound_def same_flags_def same_device_def
          split: if_splits)
  next
    case False
    then have "unmap_buffer i w = Some (Aborts OutOfBounds w)"
      by (simp add: unmap_buffer_def)
    then have "out = Aborts OutOfBounds w"
      using Cons.prems by simp
    then show ?thesis
      using False by (auto simp: unwound_def same_flags_def same_device_def)
  qed
qed

lemma ensures_unmap_loop:
  assumes "\<forall>i\<in>set xs. i < usbcam_max_buffers \<Longrightarrow>
      Q () (w\<lparr>drv := (drv w)\<lparr>trace := trace (drv w) @
               map (\<lambda>i. UnmapBuffer (usbcam_buffer_start w ! i) (usbcam_buffer_length w ! i)) xs\<rparr>\<rparr>)"
    and "\<And>w'. \<not> (\<forall>i\<in>set xs. i < usbcam_max_buffers) \<Longrightarrow> unwound w w' \<Longrightarrow>
           same_flags w w' \<Longrightarrow> A OutOfBounds w'"
  shows "ensures (for_loop xs unmap_buffer w) Q A"
proof (rule ensuresI)
  fix a w'
  assume "for_loop xs unmap_buffer w = Some (Returns a w')"
  from unmap_loop_cases [OF this] show "Q a w'"
    using assms(1) by (auto split: if_splits)
next
  fix f w'
  assume "for_loop xs unmap_buffer w = Some (Aborts f w')"
  from unmap_loop_cases [OF this] show "A f w'"
    using assms(2) by (auto split: if_splits)
qed

text \<open>The four blocks of \<^verbatim>\<open>usbcam_cleanup\<close> in turn, each with what holds after it.\<close>

lemma cleanup_ensures:
  "ensures (usbcam_cleanup w)
     (\<lambda>_ w'. unwound w w' \<and> \<not> usbcam_has_dqbuf w' \<and> \<not> usbcam_has_mmap w' \<and>
        \<not> usbcam_has_stream w' \<and> \<not> usbcam_has_fd w' \<and>
        trace (drv w') = trace (drv w) @
           (if usbcam_has_dqbuf w then [Enqueue (index (usbcam_dqbuf w))] else []) @
           (if usbcam_has_mmap w
            then map (\<lambda>i. UnmapBuffer (usbcam_buffer_start w ! i) (usbcam_buffer_length w ! i))
                   [0..<nat (usbcam_buffers w)]
            else []) @
           (if usbcam_has_stream w then [StreamOff] else []) @
           (if usbcam_has_fd w then [Close (usbcam_fd w)] else []) \<and>
        (usbcam_has_fd w \<longrightarrow> idle (drv w')) \<and>
        (\<not> usbcam_has_fd w \<longrightarrow>
           \<not> usbcam_has_dqbuf w \<and> \<not> usbcam_has_stream w \<and> same_queues (drv w) (drv w')) \<and>
        (usbcam_has_mmap w \<longrightarrow> nat (usbcam_buffers w) \<le> usbcam_max_buffers))
     (\<lambda>f w'. unwound w w' \<and> usbcam_has_fd w' = usbcam_has_fd w \<and>
        (usbcam_has_mmap w' \<longrightarrow> usbcam_has_mmap w) \<and>
        ((\<exists>e. f = RequestFailed e) \<and> usbcam_has_fd w \<or>
         f = AssertFailed ''The camera device has not been opened yet!'' \<and> \<not> usbcam_has_fd w \<and>
           (usbcam_has_dqbuf w \<or> usbcam_has_stream w) \<or>
         f = OutOfBounds \<and> usbcam_has_mmap w \<and>
           \<not> nat (usbcam_buffers w) \<le> usbcam_max_buffers))"
  (is "ensures _ ?Q ?A")
proof -
  let ?T1 = "if usbcam_has_dqbuf w then [Enqueue (index (usbcam_dqbuf w))] else []"
  let ?T2 = "if usbcam_has_mmap w
            then map (\<lambda>i. UnmapBuffer (usbcam_buffer_start w ! i) (usbcam_buffer_length w ! i))
                   [0..<nat (usbcam_buffers w)]
            else []"
  let ?T3 = "if usbcam_has_stream w then [StreamOff] else []"
  let ?K = "\<lambda>w'. unwound w w' \<and> usbcam_has_fd w' = usbcam_has_fd w \<and>
      (\<not> usbcam_has_fd w \<longrightarrow> same_queues (drv w) (drv w'))"
  let ?Q1 = "\<lambda>w'. ?K w' \<and> \<not> usbcam_has_dqbuf w' \<and> usbcam_has_mmap w' = usbcam_has_mmap w \<and>
      usbcam_has_stream w' = usbcam_has_stream w \<and> trace (drv w') = trace (drv w) @ ?T1 \<and>
      (\<not> usbcam_has_fd w \<longrightarrow> \<not> usbcam_has_dqbuf w)"
  let ?Q2 = "\<lambda>w'. ?K w' \<and> \<not> usbcam_has_dqbuf w' \<and> \<not> usbcam_has_mmap w' \<and>
      usbcam_has_stream w' = usbcam_has_stream w \<and>
      trace (drv w') = trace (drv w) @ ?T1 @ ?T2 \<and>
      (\<not> usbcam_has_fd w \<longrightarrow> \<not> usbcam_has_dqbuf w) \<and>
      (usbcam_has_mmap w \<longrightarrow> nat (usbcam_buffers w) \<le> usbcam_max_buffers)"
  let ?Q3 = "\<lambda>w'. ?K w' \<and> \<not> usbcam_has_dqbuf w' \<and> \<not> usbcam_has_mmap w' \<and>
      \<not> usbcam_has_stream w' \<and>
      trace (drv w') = trace (drv w) @ ?T1 @ ?T2 @ ?T3 \<and>
      (\<not> usbcam_has_fd w \<longrightarrow> \<not> usbcam_has_dqbuf w \<and> \<not> usbcam_has_stream w) \<and>
      (usbcam_has_mmap w \<longrightarrow> nat (usbcam_buffers w) \<le> usbcam_max_buffers)"
  have b1: "ensures
       (if usbcam_has_dqbuf w
        then andthen (usbcam_ioctl (VIDIOC_QBUF (usbcam_dqbuf w)) w)
               (\<lambda>_ w. Some (Returns () (w\<lparr>usbcam_has_dqbuf := False\<rparr>)))
        else Some (Returns () w)) (\<lambda>_. ?Q1) ?A"
  proof (cases "usbcam_has_dqbuf w")
    case True
    then show ?thesis
      by (simp only: if_True, intro ensures_then_set ensures_QBUF)
        (simp_all add: unwound_def same_device_def same_queues_def)
  next
    case False
    then show ?thesis
      by (simp add: unwound_def same_device_def same_queues_def)
  qed
  have b2: "ensures
       (if usbcam_has_mmap w1
        then andthen (for_loop [0..<nat (usbcam_buffers w1)] unmap_buffer w1)
               (\<lambda>_ w. Some (Returns () (w\<lparr>usbcam_has_mmap := False\<rparr>)))
        else Some (Returns () w1)) (\<lambda>_. ?Q2) ?A" if "?Q1 w1" for w1
  proof (cases "usbcam_has_mmap w1")
    case True
    then show ?thesis
      using that
      by (simp only: if_True, intro ensures_then_set ensures_unmap_loop)
        (auto simp: unwound_def same_device_def same_queues_def same_flags_def)
  next
    case False
    then show ?thesis
      using that by simp
  qed
  have b3: "ensures
       (if usbcam_has_stream w2
        then andthen (usbcam_ioctl (VIDIOC_STREAMOFF V4L2_BUF_TYPE_VIDEO_CAPTURE) w2)
               (\<lambda>_ w. Some (Returns () (w\<lparr>usbcam_has_stream := False\<rparr>)))
        else Some (Returns () w2)) (\<lambda>_. ?Q3) ?A" if "?Q2 w2" for w2
  proof (cases "usbcam_has_stream w2")
    case True
    then show ?thesis
      using that
      by (simp only: if_True, intro ensures_then_set ensures_STREAMOFF)
        (simp_all add: unwound_def same_device_def same_queues_def)
  next
    case False
    then show ?thesis
      using that by simp
  qed
  have b4: "ensures
       (if usbcam_has_fd w3
        then Some (Returns ()
               (w3\<lparr>drv := close (usbcam_fd w3) (drv w3), usbcam_has_fd := False\<rparr>))
        else Some (Returns () w3)) ?Q ?A" if "?Q3 w3" for w3
    using that
    by (simp add: unwound_def same_device_def same_queues_def close_def idle_def)
  show ?thesis
    unfolding usbcam_cleanup_def
    apply (rule ensures_andthen [OF b1])
    apply (rule ensures_andthen [OF b2], assumption)
    apply (rule ensures_andthen [OF b3], assumption)
    apply (erule b4)
    done
qed

lemma consistent_teardown_ready: "consistent w \<Longrightarrow> teardown_ready w"
  by (auto simp: consistent_def teardown_ready_def idle_def usbcam_max_buffers_def
      split: if_splits)

lemma consistent_start: "idle d \<Longrightarrow> consistent (program_start d)"
  by (simp add: consistent_def program_start_def idle_def)

lemma cleanup_teardown_ready:
  assumes "teardown_ready w"
  shows "ensures (usbcam_cleanup w)
     (\<lambda>_ w'. quiescent w' \<and> idle (drv w') \<and> unwound w w')
     (\<lambda>f w'. (\<exists>e. f = RequestFailed e) \<and> teardown_ready w')"
proof (rule ensures_weaken [OF cleanup_ensures], goal_cases)
  case (1 a w')
  show ?case
  proof (cases "usbcam_has_fd w")
    case True
    with 1 show ?thesis by (simp add: quiescent_def)
  next
    case False
    with 1 assms show ?thesis
      by (simp add: quiescent_def teardown_ready_def idle_def same_queues_def)
  qed
next
  case (2 f w')
  have fd: "usbcam_has_dqbuf w \<or> usbcam_has_stream w \<Longrightarrow> usbcam_has_fd w"
    and bound: "usbcam_has_mmap w \<Longrightarrow> nat (usbcam_buffers w) \<le> usbcam_max_buffers"
    using assms by (auto simp: teardown_ready_def)
  from 2 fd bound have kind: "\<exists>e. f = RequestFailed e" and open_fd: "usbcam_has_fd w"
    by blast+
  from 2 have frame: "unwound w w'" "usbcam_has_fd w' = usbcam_has_fd w"
    "usbcam_has_mmap w' \<longrightarrow> usbcam_has_mmap w"
    by simp_all
  have "teardown_ready w'"
    using frame open_fd bound assms by (simp add: teardown_ready_def unwound_def)
  with kind show ?case by simp
qed

lemma cleanup_consistent:
  assumes "consistent w"
  shows "ensures (usbcam_cleanup w)
     (\<lambda>_ w'. consistent w' \<and> quiescent w' \<and> idle (drv w') \<and> unwound w w')
     (\<lambda>f w'. (\<exists>e. f = RequestFailed e) \<and> teardown_ready w')"
proof (rule ensures_weaken [OF cleanup_teardown_ready [OF consistent_teardown_ready [OF assms]]],
    goal_cases)
  case (1 a w')
  then have "consistent w'"
    using assms by (simp add: consistent_def quiescent_def idle_def unwound_def)
  with 1 show ?case by simp
next
  case (2 f w')
  then show ?case by simp
qed

lemma cleanup_quiet_returns:
  assumes "teardown_ready w" and "quiet (drv w)"
  shows "\<exists>w'. usbcam_cleanup w = Some (Returns () w')"
proof -
  have bound: "usbcam_has_mmap w \<Longrightarrow> \<forall>i\<in>set [0..<nat (usbcam_buffers w)]. i < usbcam_max_buffers"
    using assms(1) by (auto simp: teardown_ready_def)
  have fd: "usbcam_has_dqbuf w \<or> usbcam_has_stream w \<Longrightarrow> usbcam_has_fd w"
    using assms(1) by (auto simp: teardown_ready_def)
  show ?thesis
    using assms(2) bound fd
    by (simp add: usbcam_cleanup_def ioctl_QBUF_quiet ioctl_STREAMOFF_quiet unmap_loop_Returns
        del: set_upt)
qed

subsection \<open>usbcam\_unlock, the driver's progress and usbcam\_lock keep the session consistent\<close>

lemma unlock_consistent:
  assumes "consistent w"
  shows "ensures (usbcam_unlock w) (\<lambda>_ w'. consistent w' \<and> \<not> usbcam_has_dqbuf w') (\<lambda>_ _. True)"
proof (cases "usbcam_has_dqbuf w")
  case False
  with assms show ?thesis by (simp add: usbcam_unlock_def)
next
  case True
  have "ensures (usbcam_ioctl (VIDIOC_QBUF (usbcam_dqbuf w)) w)
          (\<lambda>a w1. consistent (w1\<lparr>usbcam_has_dqbuf := False\<rparr>)) (\<lambda>_ _. True)"
    using assms True
    by (intro ensures_QBUF)
      (clarsimp simp: consistent_def queues_in_pool_def in_pool_def pool_mapped_def)+
  then show ?thesis
    using True by (simp add: usbcam_unlock_def) (erule ensures_andthen, simp)
qed

lemma completes_consistent:
  assumes "consistent w"
  shows "consistent (w\<lparr>drv := driver_completes used ts (drv w)\<rparr>)"
proof (cases "incoming (drv w)")
  case Nil
  then have "driver_completes used ts (drv w) = drv w"
    by (simp add: driver_completes_def)
  with assms show ?thesis by simp
next
  case (Cons i rest)
  then have s: "usbcam_has_stream w"
    using assms by (auto simp: consistent_def split: if_splits)
  show ?thesis
    using assms Cons s
    by (clarsimp simp: driver_completes_def consistent_def queues_in_pool_def in_pool_def
        pool_mapped_def)
qed

lemma holding_poll:
  assumes "holding buf w" and "select_readable fd (drv w) = (r, d)"
  shows "holding buf (w\<lparr>drv := d\<rparr>)" and "unwound w (w\<lparr>drv := d\<rparr>)"
    and "same_flags w (w\<lparr>drv := d\<rparr>)"
  using assms(1) select_cases [OF assms(2)]
  by (auto simp: holding_def consistent_def queues_in_pool_def in_pool_def pool_mapped_def
      unwound_def same_device_def same_flags_def)

lemma holding_requeue:
  assumes "holding buf w"
  shows "consistent (w\<lparr>drv := performs (Enqueue (index buf))
             ((drv w)\<lparr>faults := fs, incoming := incoming (drv w) @ [index buf],
                held := remove1 (index buf) (held (drv w))\<rparr>)\<rparr>)"
  using assms
  by (clarsimp simp: holding_def consistent_def queues_in_pool_def in_pool_def pool_mapped_def)

lemma consistent_dequeue:
  assumes "consistent w" and "\<not> usbcam_has_dqbuf w" and "usbcam_has_stream w"
    and "outgoing (drv w) = b # bs"
  shows "holding b (w\<lparr>drv := performs (Dequeue (index b))
             ((drv w)\<lparr>faults := fs, outgoing := bs, held := held (drv w) @ [index b]\<rparr>)\<rparr>)"
  using assms
  by (clarsimp simp: holding_def consistent_def queues_in_pool_def in_pool_def pool_mapped_def)

text \<open>The drain loop keeps \<open>holding\<close>, by fixpoint induction: one iteration polls, hands
  the held buffer back and dequeues the next.\<close>

lemma lock_drain_holding:
  assumes "lock_drain buf w = Some out" and "holding buf w"
  shows "drained w out"
proof -
  have "holding buf w \<longrightarrow> drained w out"
  proof (rule lock_drain.raw_induct
      [where P = "\<lambda>buf w out. holding buf w \<longrightarrow> drained w out", OF _ assms(1)], goal_cases)
    case (1 drain buf w out)
    show ?case
    proof
      assume h: "holding buf w"
      obtain r d where sel: "select_readable (usbcam_fd w + 1) (drv w) = (r, d)"
        by (cases "select_readable (usbcam_fd w + 1) (drv w)")
      let ?w1 = "w\<lparr>drv := d\<rparr>"
      note h1 = holding_poll [OF h sel]
      show "drained w out"
      proof (cases "r = 1")
        case False
        with 1(2) sel have "out = Returns buf ?w1"
          by simp
        with h1 show ?thesis
          by (simp add: drained_def)
      next
        case True
        with 1(2) sel have body:
          "(case usbcam_ioctl (VIDIOC_QBUF buf) ?w1 of
              None \<Rightarrow> None
            | Some (Aborts f w1) \<Rightarrow> Some (Aborts f w1)
            | Some (Returns buf1 w1) \<Rightarrow>
                (case usbcam_ioctl (VIDIOC_DQBUF buf1) w1 of
                   None \<Rightarrow> None
                 | Some (Aborts f w2) \<Rightarrow> Some (Aborts f w2)
                 | Some (Returns buf2 w2) \<Rightarrow> drain buf2 w2)) = Some out"
          by simp
        then obtain o1 where q: "usbcam_ioctl (VIDIOC_QBUF buf) ?w1 = Some o1"
          by (cases "usbcam_ioctl (VIDIOC_QBUF buf) ?w1") simp_all
        from ioctl_QBUF_cases [OF q] consider
          (abort) f w' where "o1 = Aborts f w'" |
          (ok) fs where "o1 = Returns buf (?w1\<lparr>drv := performs (Enqueue (index buf))
               ((drv ?w1)\<lparr>faults := fs, incoming := incoming (drv ?w1) @ [index buf],
                  held := remove1 (index buf) (held (drv ?w1))\<rparr>)\<rparr>)"
          by blast
        then show ?thesis
        proof cases
          case abort
          with body q show ?thesis
            by (auto simp: drained_def)
        next
          case ok
          let ?w2 = "?w1\<lparr>drv := performs (Enqueue (index buf))
               ((drv ?w1)\<lparr>faults := fs, incoming := incoming (drv ?w1) @ [index buf],
                  held := remove1 (index buf) (held (drv ?w1))\<rparr>)\<rparr>"
          have c2: "consistent ?w2"
            using holding_requeue [OF h1(1)] by simp
          have f2: "\<not> usbcam_has_dqbuf ?w2" "usbcam_has_stream ?w2"
            using h by (simp_all add: holding_def consistent_def)
          from body q ok have body2:
            "(case usbcam_ioctl (VIDIOC_DQBUF buf) ?w2 of
                   None \<Rightarrow> None
                 | Some (Aborts f w2) \<Rightarrow> Some (Aborts f w2)
                 | Some (Returns buf2 w2) \<Rightarrow> drain buf2 w2) = Some out"
            by simp
          then obtain o2 where dq: "usbcam_ioctl (VIDIOC_DQBUF buf) ?w2 = Some o2"
            by (cases "usbcam_ioctl (VIDIOC_DQBUF buf) ?w2") simp_all
          from ioctl_DQBUF_cases [OF dq] consider
            (abort2) f w' where "o2 = Aborts f w'" |
            (ok2) fs2 b bs where "outgoing (drv ?w2) = b # bs"
              "o2 = Returns b (?w2\<lparr>drv := performs (Dequeue (index b))
                 ((drv ?w2)\<lparr>faults := fs2, outgoing := bs,
                    held := held (drv ?w2) @ [index b]\<rparr>)\<rparr>)"
            by blast
          then show ?thesis
          proof cases
            case abort2
            with body2 dq show ?thesis
              by (auto simp: drained_def)
          next
            case ok2
            let ?w3 = "?w2\<lparr>drv := performs (Dequeue (index b))
                 ((drv ?w2)\<lparr>faults := fs2, outgoing := bs,
                    held := held (drv ?w2) @ [index b]\<rparr>)\<rparr>"
            have h3: "holding b ?w3"
              using consistent_dequeue [OF c2 f2 ok2(1)] .
            have "drain b ?w3 = Some out"
              using body2 dq ok2(2) by simp
            with 1(1) h3 have d3: "drained ?w3 out"
              by blast
            have "unwound w ?w3" "same_flags w ?w3"
              using h1(2,3)
              by (simp_all add: unwound_def same_device_def same_flags_def)
            with d3 show ?thesis
              by (auto simp: drained_def split: outcome.splits
                  intro: unwound_trans same_flags_trans)
          qed
        qed
      qed
    qed
  qed
  with assms(2) show ?thesis
    by simp
qed

lemma lock_consistent:
  assumes "consistent w"
  shows "ensures (usbcam_lock data size_p timestamp_p w) (locked_result w) (\<lambda>_ _. True)"
proof (cases "\<not> usbcam_has_dqbuf w \<and> usbcam_has_fd w \<and> usbcam_has_mmap w \<and> usbcam_has_stream w")
  case False
  then have "usbcam_lock data size_p timestamp_p w =
      Some (Aborts (AssertFailed
       (if usbcam_has_dqbuf w then ''You forgot to unlock the previous frame''
        else if \<not> usbcam_has_fd w then ''Camera device not open''
        else if \<not> usbcam_has_mmap w then ''Buffers not allocated''
        else ''Stream not begun'')) w)"
    by (auto simp: usbcam_lock_def)
  then show ?thesis by simp
next
  case True
  let ?H = "\<lambda>b w1. holding b w1 \<and> unwound w w1 \<and> same_flags w w1"
  have dq: "ensures (usbcam_ioctl (VIDIOC_DQBUF buf0) w) ?H (\<lambda>_ _. True)" for buf0
  proof (rule ensures_DQBUF, goal_cases)
    case (3 fs b bs)
    from consistent_dequeue [OF assms _ _ 3(2), of fs] True show ?case
      by (simp add: unwound_def same_device_def same_flags_def)
  qed simp_all
  have drain: "ensures (lock_drain b w1) ?H (\<lambda>_ _. True)" if "?H b w1" for b w1
  proof (rule ensuresI)
    fix b' w'
    assume "lock_drain b w1 = Some (Returns b' w')"
    from lock_drain_holding [OF this] that show "?H b' w'"
      by (auto simp: drained_def intro: unwound_trans same_flags_trans)
  qed simp
  have fin: "locked_result w
      (usbcam_buffer_start w2 ! unat (index b), bytesused b, timestamp b)
      (w2\<lparr>usbcam_dqbuf := b, usbcam_has_dqbuf := True\<rparr>)" if "?H b w2" for b w2
    using that True by (simp add: locked_result_def holding_def unwound_def)
  have tail: "ensures
      (andthen (store_through timestamp_p w2) (\<lambda>_ w.
       andthen (if unat (index b) < usbcam_max_buffers then store_through data w
                else Some (Aborts OutOfBounds w)) (\<lambda>_ w.
       andthen (store_through size_p w) (\<lambda>_ w.
       Some (Returns
               (usbcam_buffer_start w ! unat (index b), bytesused b, timestamp b)
               (w\<lparr>usbcam_dqbuf := b, usbcam_has_dqbuf := True\<rparr>))))))
      (locked_result w) (\<lambda>_ _. True)" if "?H b w2" for b w2
    using fin [OF that]
    by (cases timestamp_p; cases data; cases size_p) simp_all
  show ?thesis
    using True
    apply (simp add: usbcam_lock_def)
    apply (rule ensures_andthen [OF dq])
    apply (rule ensures_andthen [OF drain], assumption)
    apply (erule tail)
    done
qed

subsection \<open>usbcam\_init establishes a consistent streaming session\<close>

lemma opened_teardown_ready: "opened w \<Longrightarrow> teardown_ready w"
  by (simp add: opened_def teardown_ready_def)

lemma streaming_teardown_ready: "streaming w \<Longrightarrow> teardown_ready w"
  by (simp add: streaming_def consistent_teardown_ready)

lemma fresh_teardown_ready: "fresh w \<Longrightarrow> teardown_ready w"
  by (simp add: fresh_def consistent_teardown_ready)

lemma allocate_buffer_opened:
  assumes "opened w" and "\<forall>j\<in>set pre. mapped_at w j" and "i < usbcam_max_buffers"
  shows "ensures (allocate_buffer i w)
           (\<lambda>_ w'. opened w' \<and> (\<forall>j\<in>set (pre @ [i]). mapped_at w' j))
           (\<lambda>_. teardown_ready)"
  unfolding allocate_buffer_def QUERYBUF_syscall
proof (rule ensures_andthen [OF ensures_ioctl
      [where Q = "\<lambda>info w'. opened w' \<and> (\<forall>j\<in>set pre. mapped_at w' j) \<and>
          buf_length info = buffer_size (drv w') (of_nat i) \<and>
          m_offset info = buffer_offset (drv w') (of_nat i)"]], goal_cases)
  case (1 d e d')
  then show ?case by simp
next
  case 2
  then show ?case using assms(1) by (simp add: opened_def)
next
  case (3 fs e)
  then show ?case using assms(1) by (simp add: opened_def teardown_ready_def idle_def)
next
  case (4 fs a d')
  then show ?case
    using assms(1,2)
    by (auto simp: opened_def idle_def mapped_at_def zero_buffer_def)
next
  case (5 info w1)
  obtain p d where m: "mmap (buf_length info) (usbcam_fd w1) (m_offset info) (drv w1) = (p, d)"
    by (cases "mmap (buf_length info) (usbcam_fd w1) (m_offset info) (drv w1)")
  from mmap_cases [OF m] show ?case
  proof
    assume "p = MAP_FAILED \<and> d = (drv w1)\<lparr>faults := stl (faults (drv w1))\<rparr>"
    then show ?thesis
      using 5 m by (simp add: opened_def teardown_ready_def idle_def)
  next
    assume ok: "p = map_base (drv w1) (m_offset info) \<and>
      d = performs (MapBuffer (m_offset info)) ((drv w1)\<lparr>faults := stl (faults (drv w1))\<rparr>)"
    show ?thesis
    proof (cases "p = MAP_FAILED")
      case True
      then show ?thesis
        using 5 m ok by (simp add: opened_def teardown_ready_def idle_def)
    next
      case False
      then show ?thesis
        using 5 m ok assms(3)
        by (auto simp: opened_def idle_def mapped_at_def nth_list_update)
    qed
  qed
qed

lemma allocate_loop_opened:
  assumes "opened w" and "\<forall>i\<in>set xs. i < usbcam_max_buffers"
  shows "ensures (for_loop xs allocate_buffer w)
           (\<lambda>_ w'. opened w' \<and> (\<forall>j\<in>set xs. mapped_at w' j)) (\<lambda>_. teardown_ready)"
proof -
  have "ensures (for_loop xs allocate_buffer w)
      (\<lambda>_. (\<lambda>pre w'. opened w' \<and> (\<forall>j\<in>set pre. mapped_at w' j)) ([] @ xs))
      (\<lambda>_. teardown_ready)"
  proof (rule ensures_for_loop, goal_cases)
    case 1
    then show ?case using assms(1) by simp
  next
    case (2 pre i w1)
    then show ?case
      using assms(2) by (intro allocate_buffer_opened) simp_all
  qed
  then show ?thesis by simp
qed

lemma queue_buffer_streaming:
  assumes "streaming w" and "i < nat (usbcam_buffers w)"
  shows "ensures (queue_buffer i w)
           (\<lambda>_ w'. streaming w' \<and> usbcam_buffers w' = usbcam_buffers w) (\<lambda>_. teardown_ready)"
proof -
  have small: "unat (word_of_nat i :: u32) < nat (usbcam_buffers w)"
    using assms(2) by (simp add: unat_of_nat le_less_trans [OF mod_less_eq_dividend])
  have fd: "usbcam_has_fd w"
    using assms(1) by (simp add: streaming_def consistent_def)
  have "ensures
     (usbcam_ioctl
        (VIDIOC_QBUF
           (zero_buffer\<lparr>buf_type := V4L2_BUF_TYPE_VIDEO_CAPTURE, memory := V4L2_MEMORY_MMAP,
              index := of_nat i\<rparr>)) w)
     (\<lambda>_ w'. streaming w' \<and> usbcam_buffers w' = usbcam_buffers w) (\<lambda>_. teardown_ready)"
  proof (rule ensures_QBUF, goal_cases)
    case 1
    then show ?case using fd by simp
  next
    case (2 fs e)
    from streaming_teardown_ready [OF assms(1)] show ?case
      by (simp add: teardown_ready_def idle_def)
  next
    case (3 fs)
    show ?case
      using assms(1) small
      by (clarsimp simp: streaming_def consistent_def queues_in_pool_def in_pool_def
          pool_mapped_def)
  qed
  then show ?thesis
    unfolding queue_buffer_def by (rule ensures_andthen) simp
qed

lemma queue_loop_streaming:
  assumes "streaming w" and "\<forall>i\<in>set xs. i < nat (usbcam_buffers w)"
  shows "ensures (for_loop xs queue_buffer w)
           (\<lambda>_ w'. streaming w' \<and> usbcam_buffers w' = usbcam_buffers w) (\<lambda>_. teardown_ready)"
proof -
  have "ensures (for_loop xs queue_buffer w)
      (\<lambda>_. (\<lambda>pre w'. streaming w' \<and> usbcam_buffers w' = usbcam_buffers w) ([] @ xs))
      (\<lambda>_. teardown_ready)"
  proof (rule ensures_for_loop, goal_cases)
    case 1
    then show ?case using assms(1) by simp
  next
    case (2 pre i w1)
    then have "i < nat (usbcam_buffers w1)"
      using assms(2) by simp
    from queue_buffer_streaming [OF _ this] 2 show ?case
      by simp
  qed
  then show ?thesis by simp
qed

lemma ensures_S_FMT_opened:
  "opened w \<Longrightarrow> ensures (usbcam_ioctl (VIDIOC_S_FMT fmt) w) (\<lambda>_. opened) (\<lambda>_. teardown_ready)"
  unfolding S_FMT_syscall
  by (rule ensures_ioctl) (simp_all add: opened_def teardown_ready_def idle_def)

lemma ensures_REQBUFS_opened:
  "opened w \<Longrightarrow>
   ensures (usbcam_ioctl (VIDIOC_REQBUFS request) w) (\<lambda>_. opened) (\<lambda>_. teardown_ready)"
  unfolding REQBUFS_syscall
  by (rule ensures_ioctl) (auto simp: opened_def teardown_ready_def idle_def)

lemma ensures_assert_opened:
  "opened w \<Longrightarrow> ensures (usbcam_assert c msg w) (\<lambda>_. opened) (\<lambda>_. teardown_ready)"
  by (rule ensures_assert) (simp_all add: opened_teardown_ready)

lemma ensures_STREAMON_mapped:
  assumes "opened w" and "\<forall>j\<in>set [0..<nat n]. mapped_at w j"
    and "0 < n" and "n \<le> int usbcam_max_buffers"
  shows "ensures
     (usbcam_ioctl (VIDIOC_STREAMON type) (w\<lparr>usbcam_buffers := n, usbcam_has_mmap := True\<rparr>))
     (\<lambda>_ w'. streaming (w'\<lparr>usbcam_has_stream := True\<rparr>) \<and> usbcam_buffers w' = n)
     (\<lambda>_. teardown_ready)"
  unfolding STREAMON_syscall
proof (rule ensures_ioctl, goal_cases)
  case (1 d e d')
  then show ?case by simp
next
  case 2
  then show ?case using assms(1) by (simp add: opened_def)
next
  case (3 fs e)
  then show ?case
    using assms by (simp add: opened_def teardown_ready_def)
next
  case (4 fs a d')
  then show ?case
    using assms
    by (auto simp: opened_def streaming_def consistent_def idle_def pool_mapped_def
        mapped_at_def queues_in_pool_def)
qed

lemma init_from_opened:
  assumes "opened w" and "0 < buffers opt" and "buffers opt \<le> int usbcam_max_buffers"
  shows "ensures
     (andthen (usbcam_ioctl
                (VIDIOC_S_FMT
                   \<lparr>fmt_type = V4L2_BUF_TYPE_VIDEO_CAPTURE, pix_pixelformat = pixel_format opt,
                    pix_width = width opt, pix_height = height opt\<rparr>) w) (\<lambda>fmt w.
     andthen (usbcam_assert (pix_pixelformat fmt = pixel_format opt)
                ''Did not get the requested format'' w) (\<lambda>_ w.
     andthen (usbcam_assert (pix_width fmt = width opt)
                ''Did not get the requested width'' w) (\<lambda>_ w.
     andthen (usbcam_assert (pix_height fmt = height opt)
                ''Did not get the requested height'' w) (\<lambda>_ w.
     andthen (usbcam_ioctl
                (VIDIOC_REQBUFS
                   \<lparr>req_count = word_of_int (buffers opt),
                    req_type = V4L2_BUF_TYPE_VIDEO_CAPTURE, req_memory = V4L2_MEMORY_MMAP\<rparr>)
                w) (\<lambda>request w.
     andthen (usbcam_assert (req_count request = word_of_int (buffers opt))
                ''Did not get the requested number of buffers'' w) (\<lambda>_ w.
     andthen (for_loop [0..<nat (buffers opt)] allocate_buffer w) (\<lambda>_ w.
     andthen (usbcam_ioctl (VIDIOC_STREAMON V4L2_BUF_TYPE_VIDEO_CAPTURE)
                (w\<lparr>usbcam_buffers := buffers opt, usbcam_has_mmap := True\<rparr>)) (\<lambda>_ w.
     for_loop [0..<nat (buffers opt)] queue_buffer
       (w\<lparr>usbcam_has_stream := True\<rparr>))))))))))
     (\<lambda>_ w'. streaming w' \<and> usbcam_buffers w' = buffers opt) (\<lambda>_. teardown_ready)"
proof -
  have bound: "\<forall>i\<in>set [0..<nat (buffers opt)]. i < usbcam_max_buffers"
    using assms(3) by auto
  have queue: "ensures
      (for_loop [0..<nat (buffers opt)] queue_buffer (w1\<lparr>usbcam_has_stream := True\<rparr>))
      (\<lambda>_ w'. streaming w' \<and> usbcam_buffers w' = buffers opt) (\<lambda>_. teardown_ready)"
    if "streaming (w1\<lparr>usbcam_has_stream := True\<rparr>) \<and> usbcam_buffers w1 = buffers opt" for w1
    using that by (intro ensures_weaken [OF queue_loop_streaming]) auto
  show ?thesis
    apply (rule ensures_andthen [OF ensures_S_FMT_opened [OF assms(1)]])
    apply (rule ensures_andthen [OF ensures_assert_opened], assumption)
    apply (rule ensures_andthen [OF ensures_assert_opened], assumption)
    apply (rule ensures_andthen [OF ensures_assert_opened], assumption)
    apply (rule ensures_andthen [OF ensures_REQBUFS_opened], assumption)
    apply (rule ensures_andthen [OF ensures_assert_opened], assumption)
    apply (rule ensures_andthen [OF allocate_loop_opened [OF _ bound]], assumption)
    apply (rule ensures_andthen [OF ensures_STREAMON_mapped [OF _ _ assms(2,3)]])
      apply (erule conjunct1)
     apply (erule conjunct2)
    apply (erule queue)
    done
qed

lemma init_consistent:
  assumes "consistent w"
  shows "ensures (usbcam_init opt w)
           (\<lambda>_ w'. streaming w' \<and> usbcam_buffers w' = buffers opt) (\<lambda>_. teardown_ready)"
proof -
  have c: "ensures (usbcam_cleanup w) (\<lambda>_. fresh) (\<lambda>_. teardown_ready)"
    by (rule ensures_weaken [OF cleanup_consistent [OF assms]]) (simp_all add: fresh_def)
  show ?thesis
  proof (cases "0 < buffers opt \<and> buffers opt \<le> int usbcam_max_buffers")
    case False
    show ?thesis
      unfolding usbcam_init_def
    proof (rule ensures_andthen [OF c], goal_cases)
      case (1 a w1)
      then show ?case
        using False fresh_teardown_ready [OF 1]
        by (cases "buffers opt \<le> int usbcam_max_buffers") (simp_all add: usbcam_assert_def)
    qed
  next
    case True
    then have b: "buffers opt \<le> int usbcam_max_buffers" "buffers opt > 0"
      by simp_all
    show ?thesis
      unfolding usbcam_init_def
    proof (rule ensures_andthen [OF c], simp only: usbcam_assert_simps(1) [OF b(1)]
        usbcam_assert_simps(1) [OF b(2)] andthen_simps, goal_cases)
      case (1 a w1)
      obtain fd d where o: "v4l2_open (device_name opt) (drv w1) = (fd, d)"
        by (cases "v4l2_open (device_name opt) (drv w1)")
      from open_cases [OF o] show ?case
      proof
        assume "fd = - 1 \<and> d = (drv w1)\<lparr>faults := stl (faults (drv w1))\<rparr>"
        then show ?thesis
          using o 1
          by (simp add: fresh_def quiescent_def consistent_def teardown_ready_def idle_def)
      next
        assume ok: "fd = int (device_fd (drv w1)) \<and>
          d = performs Open ((drv w1)\<lparr>faults := stl (faults (drv w1))\<rparr>)"
        then have "opened (w1\<lparr>usbcam_fd := fd, drv := d, usbcam_has_fd := True\<rparr>)"
          using 1 by (simp add: fresh_def quiescent_def consistent_def opened_def idle_def)
        from init_from_opened [OF this b(2,1)] ok o show ?thesis
          by simp
      qed
    qed
  qed
qed

subsection \<open>Every session is consistent between calls\<close>

lemma step_consistent:
  assumes "consistent w" and "step e w = Some w'"
  shows "consistent w'"
proof (cases e)
  case (Init opt)
  with assms(2) obtain a where "usbcam_init opt w = Some (Returns a w')"
    by (auto simp: returned_Some)
  from ensures_ReturnsD [OF init_consistent [OF assms(1)] this] show ?thesis
    by (simp add: streaming_def)
next
  case Cleanup
  with assms(2) obtain a where "usbcam_cleanup w = Some (Returns a w')"
    by (auto simp: returned_Some)
  from ensures_ReturnsD [OF cleanup_consistent [OF assms(1)] this] show ?thesis
    by simp
next
  case (Lock data size_p timestamp_p)
  with assms(2) obtain a where "usbcam_lock data size_p timestamp_p w = Some (Returns a w')"
    by (auto simp: returned_Some)
  from ensures_ReturnsD [OF lock_consistent [OF assms(1)] this] show ?thesis
    by (simp add: locked_result_def)
next
  case Unlock
  with assms(2) obtain a where "usbcam_unlock w = Some (Returns a w')"
    by (auto simp: returned_Some)
  from ensures_ReturnsD [OF unlock_consistent [OF assms(1)] this] show ?thesis
    by simp
next
  case (Completes used ts)
  with assms(2) completes_consistent [OF assms(1)] show ?thesis
    by auto
qed

lemma run_consistent: "consistent w \<Longrightarrow> run es w = Some w' \<Longrightarrow> consistent w'"
proof (induction es arbitrary: w)
  case Nil
  then show ?case by simp
next
  case (Cons e es)
  then obtain w1 where "step e w = Some w1" and "run es w1 = Some w'"
    by (auto split: option.splits)
  with Cons.IH step_consistent [OF Cons.prems(1)] show ?case
    by blast
qed

lemma reached_consistent: "idle d \<Longrightarrow> run es (program_start d) = Some w \<Longrightarrow> consistent w"
  using run_consistent consistent_start by blast

lemma abandoned_teardown_ready:
  assumes "idle d" and "run es (program_start d) = Some w0"
    and "w = w0 \<or> (\<exists>opt f. usbcam_init opt w0 = Some (Aborts f w))"
  shows "teardown_ready w"
proof -
  have c: "consistent w0"
    using reached_consistent [OF assms(1,2)] .
  from assms(3) show ?thesis
  proof
    assume "w = w0"
    with c show ?thesis by (simp add: consistent_teardown_ready)
  next
    assume "\<exists>opt f. usbcam_init opt w0 = Some (Aborts f w)"
    then obtain opt f where "usbcam_init opt w0 = Some (Aborts f w)"
      by blast
    from ensures_AbortsD [OF init_consistent [OF c] this] show ?thesis .
  qed
qed

subsection \<open>A driver that carries out each request after interruptions\<close>

lemma returns_simps [simp]:
  "returns (Some (Returns a w)) Q = Q a w"
  "\<not> returns (Some (Aborts f w)) Q"
  "\<not> returns None Q"
  by (simp_all add: returns_def)

lemma aborts_with_simps [simp]:
  "aborts_with (Some (Aborts f w)) g = (f = g)"
  "\<not> aborts_with (Some (Returns a w)) g"
  "\<not> aborts_with None g"
  by (auto simp: aborts_with_def)

lemma returns_andthen:
  assumes "returns m Q'" and "\<And>a w. Q' a w \<Longrightarrow> returns (k a w) Q"
  shows "returns (andthen m k) Q"
  using assms by (auto simp: returns_def)

lemma returns_then_abort:
  assumes "returns m Q'" and "\<And>a w. Q' a w \<Longrightarrow> aborts_with (k a w) f"
  shows "aborts_with (andthen m k) f"
  using assms by (auto simp: returns_def)

lemma returns_weaken: "returns m Q' \<Longrightarrow> (\<And>a w. Q' a w \<Longrightarrow> Q a w) \<Longrightarrow> returns m Q"
  by (auto simp: returns_def)

lemma syscall_fault: "faults d = Some e ## fs \<Longrightarrow> syscall normal d = (Err e, d\<lparr>faults := fs\<rparr>)"
  by (simp add: syscall_def)

lemma syscall_pass: "faults d = None ## fs \<Longrightarrow> syscall normal d = normal (d\<lparr>faults := fs\<rparr>)"
  by (simp add: syscall_def)

lemma ioctl_retry_carried:
  assumes "interruptions r" and "faults d = after_retries r s"
    and "normal (d\<lparr>faults := s\<rparr>) = (Ok a, d')"
  shows "ioctl_retry fd (\<lambda>fd. syscall normal) d = Some (Inr a, d')"
  using assms
proof (induction r arbitrary: d)
  case Nil
  then show ?case
    by (subst ioctl_retry.simps)
      (simp add: v4l2_ioctl_def after_retries_def syscall_pass)
next
  case (Cons e r)
  let ?d1 = "d\<lparr>faults := after_retries r s\<rparr>"
  have "syscall normal d = (Err e, ?d1)"
    using Cons.prems(2) by (simp add: after_retries_def syscall_fault)
  moreover have "e = EINTR \<or> e = EAGAIN"
    using Cons.prems(1) by (simp add: interruptions_def)
  ultimately have "ioctl_retry fd (\<lambda>fd. syscall normal) d =
      ioctl_retry fd (\<lambda>fd. syscall normal) ?d1"
    by (subst ioctl_retry.simps) (simp add: v4l2_ioctl_def)
  moreover have "ioctl_retry fd (\<lambda>fd. syscall normal) ?d1 = Some (Inr a, d')"
    using Cons.prems by (intro Cons.IH) (simp_all add: interruptions_def)
  ultimately show ?case by simp
qed

lemma ioctl_retry_refused:
  assumes "interruptions r" and "faults d = refused_after r e s"
    and "e \<noteq> EINTR" and "e \<noteq> EAGAIN"
  shows "ioctl_retry fd (\<lambda>fd. syscall normal) d = Some (Inl e, d\<lparr>faults := s\<rparr>)"
  using assms
proof (induction r arbitrary: d)
  case Nil
  then show ?case
    by (subst ioctl_retry.simps)
      (simp add: v4l2_ioctl_def refused_after_def syscall_fault)
next
  case (Cons e' r)
  let ?d1 = "d\<lparr>faults := refused_after r e s\<rparr>"
  have "syscall normal d = (Err e', ?d1)"
    using Cons.prems(2) by (simp add: refused_after_def syscall_fault)
  moreover have "e' = EINTR \<or> e' = EAGAIN"
    using Cons.prems(1) by (simp add: interruptions_def)
  ultimately have "ioctl_retry fd (\<lambda>fd. syscall normal) d =
      ioctl_retry fd (\<lambda>fd. syscall normal) ?d1"
    by (subst ioctl_retry.simps) (simp add: v4l2_ioctl_def)
  moreover have "ioctl_retry fd (\<lambda>fd. syscall normal) ?d1 = Some (Inl e, ?d1\<lparr>faults := s\<rparr>)"
    using Cons.prems by (intro Cons.IH) (simp_all add: interruptions_def)
  ultimately show ?case by simp
qed

lemma usbcam_ioctl_carried:
  assumes "usbcam_has_fd w" and "interruptions r" and "faults (drv w) = after_retries r s"
    and "normal ((drv w)\<lparr>faults := s\<rparr>) = (Ok a, d')"
  shows "usbcam_ioctl (\<lambda>fd. syscall normal) w = Some (Returns a (w\<lparr>drv := d'\<rparr>))"
  using assms(1)
    ioctl_retry_carried [where fd = "usbcam_fd w" and normal = normal, OF assms(2,3,4)]
  by (simp add: usbcam_ioctl_def)

lemma usbcam_ioctl_refused:
  assumes "usbcam_has_fd w" and "interruptions r" and "faults (drv w) = refused_after r e s"
    and "e \<noteq> EINTR" and "e \<noteq> EAGAIN"
  shows "usbcam_ioctl (\<lambda>fd. syscall normal) w =
           Some (Aborts (RequestFailed e) (w\<lparr>drv := (drv w)\<lparr>faults := s\<rparr>\<rparr>))"
  using assms(1)
    ioctl_retry_refused [where fd = "usbcam_fd w" and normal = normal, OF assms(2,3,4,5)]
  by (simp add: usbcam_ioctl_def)

lemma ioctl_QBUF_retried:
  assumes "usbcam_has_fd w" and "interruptions r" and "faults (drv w) = after_retries r s"
  shows "usbcam_ioctl (VIDIOC_QBUF buf) w =
     Some (Returns buf (w\<lparr>drv := performs (Enqueue (index buf))
        ((drv w)\<lparr>faults := s, incoming := incoming (drv w) @ [index buf],
                  held := remove1 (index buf) (held (drv w))\<rparr>)\<rparr>))"
  unfolding QBUF_syscall by (rule usbcam_ioctl_carried [OF assms]) simp

lemma ioctl_DQBUF_retried:
  assumes "usbcam_has_fd w" and "interruptions r" and "faults (drv w) = after_retries r s"
    and "outgoing (drv w) = b # bs"
  shows "usbcam_ioctl (VIDIOC_DQBUF buf) w =
     Some (Returns b (w\<lparr>drv := performs (Dequeue (index b))
        ((drv w)\<lparr>faults := s, outgoing := bs, held := held (drv w) @ [index b]\<rparr>)\<rparr>))"
  unfolding DQBUF_syscall using assms(4) by (intro usbcam_ioctl_carried [OF assms(1,2,3)]) simp

lemma ioctl_STREAMOFF_retried:
  assumes "usbcam_has_fd w" and "interruptions r" and "faults (drv w) = after_retries r s"
  shows "usbcam_ioctl (VIDIOC_STREAMOFF type) w =
     Some (Returns type (w\<lparr>drv := performs StreamOff
        ((drv w)\<lparr>faults := s, incoming := [], outgoing := [], held := []\<rparr>)\<rparr>))"
  unfolding STREAMOFF_syscall by (rule usbcam_ioctl_carried [OF assms]) simp

lemma select_pass:
  "faults d = None ## s \<Longrightarrow>
   select_readable fd d = (if outgoing d = [] then 0 else 1, performs Poll (d\<lparr>faults := s\<rparr>))"
  by (simp add: select_readable_def syscall_pass)

lemma sconst_None_unfold: "None ## sconst None = sconst None"
  by (subst (2) siterate.code) simp

lemma andthen_assoc:
  "andthen (andthen m k1) k2 = andthen m (\<lambda>a w. andthen (k1 a w) k2)"
  by (simp add: andthen_def split: option.splits outcome.splits)

lemma ioctl_retry_error_real:
  assumes "ioctl_retry fd req d = Some (Inl e, d')"
  shows "e \<noteq> EINTR \<and> e \<noteq> EAGAIN"
proof -
  have "\<forall>e. fst y = Inl e \<longrightarrow> e \<noteq> EINTR \<and> e \<noteq> EAGAIN" if "ioctl_retry fd req d = Some y" for y
  proof (rule ioctl_retry.raw_induct [where P = "\<lambda>fd req d y.
      \<forall>e. fst y = Inl e \<longrightarrow> e \<noteq> EINTR \<and> e \<noteq> EAGAIN", OF _ that], goal_cases)
    case (1 retry fd req d y)
    then show ?case
      by (auto split: prod.splits sysres.splits if_splits)
  qed
  from this [OF assms] show ?thesis by simp
qed

lemma usbcam_ioctl_abort_real:
  assumes "usbcam_ioctl req w = Some (Aborts (RequestFailed e) w')"
  shows "e \<noteq> EINTR \<and> e \<noteq> EAGAIN"
proof (cases "usbcam_has_fd w")
  case False
  then show ?thesis
    using assms by (simp add: usbcam_ioctl_def)
next
  case True
  then obtain d' where "ioctl_retry (usbcam_fd w) req (drv w) = Some (Inl e, d')"
    using assms by (auto simp: usbcam_ioctl_def split: option.splits sum.splits)
  then show ?thesis
    by (rule ioctl_retry_error_real)
qed

lemma ensures_ioctl_real:
  "ensures (usbcam_ioctl req w) (\<lambda>_ _. True)
     (\<lambda>f _. \<forall>e. f = RequestFailed e \<longrightarrow> e \<noteq> EINTR \<and> e \<noteq> EAGAIN)"
  by (rule ensuresI) (auto dest: usbcam_ioctl_abort_real)

lemma cleanup_abort_real:
  assumes "usbcam_cleanup w = Some (Aborts (RequestFailed e) w')"
  shows "e \<noteq> EINTR \<and> e \<noteq> EAGAIN"
proof -
  let ?A = "\<lambda>f (w :: world). \<forall>e. f = RequestFailed e \<longrightarrow> e \<noteq> EINTR \<and> e \<noteq> EAGAIN"
  let ?T = "\<lambda>(_ :: unit) (w :: world). True"
  have b1: "ensures
       (if usbcam_has_dqbuf w
        then andthen (usbcam_ioctl (VIDIOC_QBUF (usbcam_dqbuf w)) w)
               (\<lambda>_ w. Some (Returns () (w\<lparr>usbcam_has_dqbuf := False\<rparr>)))
        else Some (Returns () w)) ?T ?A"
    by (auto intro!: ensures_then_set ensures_weaken [OF ensures_ioctl_real])
  have b2: "ensures
       (if usbcam_has_mmap w1
        then andthen (for_loop [0..<nat (usbcam_buffers w1)] unmap_buffer w1)
               (\<lambda>_ w. Some (Returns () (w\<lparr>usbcam_has_mmap := False\<rparr>)))
        else Some (Returns () w1)) ?T ?A" for w1
    by (auto intro!: ensures_then_set ensures_unmap_loop simp del: set_upt)
  have b3: "ensures
       (if usbcam_has_stream w2
        then andthen (usbcam_ioctl (VIDIOC_STREAMOFF V4L2_BUF_TYPE_VIDEO_CAPTURE) w2)
               (\<lambda>_ w. Some (Returns () (w\<lparr>usbcam_has_stream := False\<rparr>)))
        else Some (Returns () w2)) ?T ?A" for w2
    by (auto intro!: ensures_then_set ensures_weaken [OF ensures_ioctl_real])
  have b4: "ensures
       (if usbcam_has_fd w3
        then Some (Returns ()
               (w3\<lparr>drv := close (usbcam_fd w3) (drv w3), usbcam_has_fd := False\<rparr>))
        else Some (Returns () w3)) ?T ?A" for w3
    by simp
  have "ensures (usbcam_cleanup w) ?T ?A"
    unfolding usbcam_cleanup_def
    apply (rule ensures_andthen [OF b1])
    apply (rule ensures_andthen [OF b2])
    apply (rule ensures_andthen [OF b3])
    apply (rule b4)
    done
  from ensures_AbortsD [OF this assms] show ?thesis
    by simp
qed

lemma ioctl_QBUF_refused:
  assumes "usbcam_has_fd w" and "interruptions r" and "faults (drv w) = refused_after r e s"
    and "e \<noteq> EINTR" and "e \<noteq> EAGAIN"
  shows "usbcam_ioctl (VIDIOC_QBUF buf) w =
           Some (Aborts (RequestFailed e) (w\<lparr>drv := (drv w)\<lparr>faults := s\<rparr>\<rparr>))"
  unfolding QBUF_syscall by (rule usbcam_ioctl_refused [OF assms])

lemma ioctl_DQBUF_refused:
  assumes "usbcam_has_fd w" and "interruptions r" and "faults (drv w) = refused_after r e s"
    and "e \<noteq> EINTR" and "e \<noteq> EAGAIN"
  shows "usbcam_ioctl (VIDIOC_DQBUF buf) w =
           Some (Aborts (RequestFailed e) (w\<lparr>drv := (drv w)\<lparr>faults := s\<rparr>\<rparr>))"
  unfolding DQBUF_syscall by (rule usbcam_ioctl_refused [OF assms])

lemma ioctl_STREAMOFF_refused:
  assumes "usbcam_has_fd w" and "interruptions r" and "faults (drv w) = refused_after r e s"
    and "e \<noteq> EINTR" and "e \<noteq> EAGAIN"
  shows "usbcam_ioctl (VIDIOC_STREAMOFF type) w =
           Some (Aborts (RequestFailed e) (w\<lparr>drv := (drv w)\<lparr>faults := s\<rparr>\<rparr>))"
  unfolding STREAMOFF_syscall by (rule usbcam_ioctl_refused [OF assms])

lemma unlock_retried:
  assumes "usbcam_has_dqbuf w" and "usbcam_has_fd w" and "interruptions r"
    and "faults (drv w) = after_retries r s"
  shows "usbcam_unlock w =
     Some (Returns () (w\<lparr>drv := performs (Enqueue (index (usbcam_dqbuf w)))
        ((drv w)\<lparr>faults := s, incoming := incoming (drv w) @ [index (usbcam_dqbuf w)],
                  held := remove1 (index (usbcam_dqbuf w)) (held (drv w))\<rparr>),
        usbcam_has_dqbuf := False\<rparr>))"
  using assms(1) ioctl_QBUF_retried [OF assms(2,3,4), of "usbcam_dqbuf w"]
  by (simp add: usbcam_unlock_def)

text \<open>The first two blocks of \<^verbatim>\<open>usbcam_cleanup\<close> when the driver carries out the requeue.\<close>

lemma cleanup_requeue_unmap:
  assumes "teardown_ready w" and "interruptions rq"
    and "faults (drv w) = (if usbcam_has_dqbuf w then after_retries rq s1 else s1)"
  shows "returns
     (andthen
       (if usbcam_has_dqbuf w
        then andthen (usbcam_ioctl (VIDIOC_QBUF (usbcam_dqbuf w)) w)
               (\<lambda>_ w. Some (Returns () (w\<lparr>usbcam_has_dqbuf := False\<rparr>)))
        else Some (Returns () w))
       (\<lambda>_ w.
        if usbcam_has_mmap w
        then andthen (for_loop [0..<nat (usbcam_buffers w)] unmap_buffer w)
               (\<lambda>_ w. Some (Returns () (w\<lparr>usbcam_has_mmap := False\<rparr>)))
        else Some (Returns () w)))
     (\<lambda>_ w2. usbcam_has_fd w2 = usbcam_has_fd w \<and> usbcam_has_stream w2 = usbcam_has_stream w \<and>
        faults (drv w2) = s1)"
proof -
  have fd: "usbcam_has_dqbuf w \<Longrightarrow> usbcam_has_fd w"
    and bound: "usbcam_has_mmap w \<Longrightarrow> \<forall>i\<in>set [0..<nat (usbcam_buffers w)]. i < usbcam_max_buffers"
    using assms(1) by (auto simp: teardown_ready_def)
  let ?Q1 = "\<lambda>w1. usbcam_has_fd w1 = usbcam_has_fd w \<and> usbcam_has_stream w1 = usbcam_has_stream w \<and>
      usbcam_has_mmap w1 = usbcam_has_mmap w \<and> usbcam_buffers w1 = usbcam_buffers w \<and>
      faults (drv w1) = s1"
  have b1: "returns
       (if usbcam_has_dqbuf w
        then andthen (usbcam_ioctl (VIDIOC_QBUF (usbcam_dqbuf w)) w)
               (\<lambda>_ w. Some (Returns () (w\<lparr>usbcam_has_dqbuf := False\<rparr>)))
        else Some (Returns () w)) (\<lambda>_. ?Q1)"
  proof (cases "usbcam_has_dqbuf w")
    case True
    with assms(3) have "faults (drv w) = after_retries rq s1"
      by simp
    from ioctl_QBUF_retried [OF fd [OF True] assms(2) this, of "usbcam_dqbuf w"] True
    show ?thesis by simp
  next
    case False
    with assms(3) show ?thesis by simp
  qed
  have b2: "returns
       (if usbcam_has_mmap w1
        then andthen (for_loop [0..<nat (usbcam_buffers w1)] unmap_buffer w1)
               (\<lambda>_ w. Some (Returns () (w\<lparr>usbcam_has_mmap := False\<rparr>)))
        else Some (Returns () w1))
       (\<lambda>_ w2. usbcam_has_fd w2 = usbcam_has_fd w \<and> usbcam_has_stream w2 = usbcam_has_stream w \<and>
          faults (drv w2) = s1)" if "?Q1 w1" for w1
    using that bound by (simp add: unmap_loop_Returns del: set_upt)
  show ?thesis
    by (rule returns_andthen [OF b1]) (erule b2)
qed

lemma cleanup_regroup:
  "usbcam_cleanup w =
     andthen
      (andthen
       (if usbcam_has_dqbuf w
        then andthen (usbcam_ioctl (VIDIOC_QBUF (usbcam_dqbuf w)) w)
               (\<lambda>_ w. Some (Returns () (w\<lparr>usbcam_has_dqbuf := False\<rparr>)))
        else Some (Returns () w))
       (\<lambda>_ w.
        if usbcam_has_mmap w
        then andthen (for_loop [0..<nat (usbcam_buffers w)] unmap_buffer w)
               (\<lambda>_ w. Some (Returns () (w\<lparr>usbcam_has_mmap := False\<rparr>)))
        else Some (Returns () w)))
      (\<lambda>_ w. andthen
       (if usbcam_has_stream w
        then andthen (usbcam_ioctl (VIDIOC_STREAMOFF V4L2_BUF_TYPE_VIDEO_CAPTURE) w)
               (\<lambda>_ w. Some (Returns () (w\<lparr>usbcam_has_stream := False\<rparr>)))
        else Some (Returns () w))
       (\<lambda>_ w.
        if usbcam_has_fd w
        then Some (Returns () (w\<lparr>drv := close (usbcam_fd w) (drv w), usbcam_has_fd := False\<rparr>))
        else Some (Returns () w)))"
  by (simp only: usbcam_cleanup_def andthen_assoc)

text \<open>\<^verbatim>\<open>usbcam_cleanup\<close> returns when the driver carries out the requeue and the stream-off,
  each after any number of interruptions.\<close>

lemma cleanup_scripted:
  assumes "teardown_ready w" and "interruptions rq" and "interruptions rs"
    and "faults (drv w) = cleanup_script w rq rs s"
  shows "\<exists>w'. usbcam_cleanup w = Some (Returns () w') \<and> faults (drv w') = s"
proof -
  let ?s1 = "if usbcam_has_stream w then after_retries rs s else s"
  have fd: "usbcam_has_stream w \<Longrightarrow> usbcam_has_fd w"
    using assms(1) by (auto simp: teardown_ready_def)
  have f: "faults (drv w) = (if usbcam_has_dqbuf w then after_retries rq ?s1 else ?s1)"
    using assms(4) by (simp add: cleanup_script_def Let_def)
  have rest: "returns
      (andthen
       (if usbcam_has_stream w2
        then andthen (usbcam_ioctl (VIDIOC_STREAMOFF V4L2_BUF_TYPE_VIDEO_CAPTURE) w2)
               (\<lambda>_ w. Some (Returns () (w\<lparr>usbcam_has_stream := False\<rparr>)))
        else Some (Returns () w2))
       (\<lambda>_ w.
        if usbcam_has_fd w
        then Some (Returns () (w\<lparr>drv := close (usbcam_fd w) (drv w), usbcam_has_fd := False\<rparr>))
        else Some (Returns () w)))
      (\<lambda>_ w'. faults (drv w') = s)"
    if "usbcam_has_fd w2 = usbcam_has_fd w \<and> usbcam_has_stream w2 = usbcam_has_stream w \<and>
        faults (drv w2) = ?s1" for w2
  proof (cases "usbcam_has_stream w")
    case True
    with that fd have "usbcam_has_fd w2" and "faults (drv w2) = after_retries rs s"
      by simp_all
    from ioctl_STREAMOFF_retried [OF this(1) assms(3) this(2), of V4L2_BUF_TYPE_VIDEO_CAPTURE]
      True that
    show ?thesis by (simp add: close_def)
  next
    case False
    with that show ?thesis by (simp add: close_def)
  qed
  have "returns (usbcam_cleanup w) (\<lambda>_ w'. faults (drv w') = s)"
    unfolding cleanup_regroup
    by (rule returns_andthen [OF cleanup_requeue_unmap [OF assms(1,2) f]]) (erule rest)
  then show ?thesis
    by (auto simp: returns_def)
qed

text \<open>A real error on the requeue, or on the stream-off, ends the process.\<close>

lemma cleanup_refused_requeue:
  assumes "teardown_ready w" and "usbcam_has_dqbuf w" and "interruptions rq"
    and "e \<noteq> EINTR" and "e \<noteq> EAGAIN" and "faults (drv w) = refused_after rq e s"
  shows "usbcam_cleanup w =
           Some (Aborts (RequestFailed e) (w\<lparr>drv := (drv w)\<lparr>faults := s\<rparr>\<rparr>))"
proof -
  have "usbcam_has_fd w"
    using assms(1,2) by (auto simp: teardown_ready_def)
  from ioctl_QBUF_refused [OF this assms(3,6,4,5), of "usbcam_dqbuf w"] assms(2)
  show ?thesis by (simp add: usbcam_cleanup_def)
qed

lemma cleanup_refused_streamoff:
  assumes "teardown_ready w" and "usbcam_has_stream w" and "interruptions rq"
    and "interruptions rs" and "e \<noteq> EINTR" and "e \<noteq> EAGAIN"
    and "faults (drv w) =
           (if usbcam_has_dqbuf w then after_retries rq (refused_after rs e s)
            else refused_after rs e s)"
  shows "\<exists>w'. usbcam_cleanup w = Some (Aborts (RequestFailed e) w')"
proof -
  have fd: "usbcam_has_fd w"
    using assms(1,2) by (auto simp: teardown_ready_def)
  have rest: "aborts_with
      (andthen
       (if usbcam_has_stream w2
        then andthen (usbcam_ioctl (VIDIOC_STREAMOFF V4L2_BUF_TYPE_VIDEO_CAPTURE) w2)
               (\<lambda>_ w. Some (Returns () (w\<lparr>usbcam_has_stream := False\<rparr>)))
        else Some (Returns () w2))
       (\<lambda>_ w.
        if usbcam_has_fd w
        then Some (Returns () (w\<lparr>drv := close (usbcam_fd w) (drv w), usbcam_has_fd := False\<rparr>))
        else Some (Returns () w)))
      (RequestFailed e)"
    if "usbcam_has_fd w2 = usbcam_has_fd w \<and> usbcam_has_stream w2 = usbcam_has_stream w \<and>
        faults (drv w2) = refused_after rs e s" for w2
  proof -
    from that fd have "usbcam_has_fd w2" and "faults (drv w2) = refused_after rs e s"
      by simp_all
    from ioctl_STREAMOFF_refused [OF this(1) assms(4) this(2) assms(5,6),
        of V4L2_BUF_TYPE_VIDEO_CAPTURE] assms(2) that
    show ?thesis by simp
  qed
  have "aborts_with (usbcam_cleanup w) (RequestFailed e)"
    unfolding cleanup_regroup
    by (rule returns_then_abort [OF cleanup_requeue_unmap [OF assms(1,3,7)]]) (erule rest)
  then show ?thesis
    by (simp add: aborts_with_def)
qed

lemma lock_drain_scripted:
  "usbcam_has_fd w \<Longrightarrow> outgoing (drv w) = bs \<Longrightarrow> held (drv w) = [index buf] \<Longrightarrow>
   length rest = length bs \<Longrightarrow>
   \<forall>p \<in> set rest. interruptions (fst p) \<and> interruptions (snd p) \<Longrightarrow>
   faults (drv w) = drain_script rest s \<Longrightarrow>
   \<exists>d. lock_drain buf w = Some (Returns (last (buf # bs)) (w\<lparr>drv := d\<rparr>)) \<and>
       incoming d = incoming (drv w) @ map index (butlast (buf # bs)) \<and>
       outgoing d = [] \<and> held d = [index (last (buf # bs))] \<and> faults d = s"
proof (induction bs arbitrary: buf w rest)
  case Nil
  then have "faults (drv w) = None ## s"
    by simp
  from select_pass [OF this] Nil show ?case
    by (subst lock_drain.simps)
      (auto intro!: exI [of _ "performs Poll ((drv w)\<lparr>faults := s\<rparr>)"])
next
  case (Cons b bs)
  from Cons.prems(4) obtain rq rd rest' where rest: "rest = (rq, rd) # rest'"
    by (cases rest) auto
  have int: "interruptions rq" "interruptions rd"
    and int': "\<forall>p \<in> set rest'. interruptions (fst p) \<and> interruptions (snd p)"
    using Cons.prems(5) by (simp_all add: rest)
  let ?s1 = "after_retries rq (after_retries rd (drain_script rest' s))"
  let ?d0 = "performs Poll ((drv w)\<lparr>faults := ?s1\<rparr>)"
  let ?w0 = "w\<lparr>drv := ?d0\<rparr>"
  let ?w1 = "?w0\<lparr>drv := performs (Enqueue (index buf))
      (?d0\<lparr>faults := after_retries rd (drain_script rest' s),
           incoming := incoming ?d0 @ [index buf],
           held := remove1 (index buf) (held ?d0)\<rparr>)\<rparr>"
  let ?w2 = "?w1\<lparr>drv := performs (Dequeue (index b))
      ((drv ?w1)\<lparr>faults := drain_script rest' s, outgoing := bs,
                  held := held (drv ?w1) @ [index b]\<rparr>)\<rparr>"
  have "faults (drv w) = None ## ?s1"
    using Cons.prems(6) by (simp add: rest)
  from select_pass [OF this] Cons.prems(2)
  have poll: "select_readable (usbcam_fd w + 1) (drv w) = (1, ?d0)"
    by simp
  have requeue: "usbcam_ioctl (VIDIOC_QBUF buf) ?w0 = Some (Returns buf ?w1)"
    using ioctl_QBUF_retried [of ?w0 rq "after_retries rd (drain_script rest' s)" buf]
      Cons.prems(1) int(1)
    by simp
  have dequeue: "usbcam_ioctl (VIDIOC_DQBUF buf) ?w1 = Some (Returns b ?w2)"
    using ioctl_DQBUF_retried [of ?w1 rd "drain_script rest' s" b bs buf]
      Cons.prems(1,2) int(2)
    by simp
  have step: "lock_drain buf w = lock_drain b ?w2"
    by (subst lock_drain.simps)
      (simp only: poll prod.case simp_thms if_True requeue dequeue option.case outcome.case)
  have "\<exists>d. lock_drain b ?w2 = Some (Returns (last (b # bs)) (?w2\<lparr>drv := d\<rparr>)) \<and>
       incoming d = incoming (drv ?w2) @ map index (butlast (b # bs)) \<and>
       outgoing d = [] \<and> held d = [index (last (b # bs))] \<and> faults d = s"
    using Cons.prems int' by (intro Cons.IH) (simp_all add: rest)
  then show ?case
    using step Cons.prems(3) by auto
qed

text \<open>\<^verbatim>\<open>usbcam_lock\<close> with \<open>N\<close> filled buffers waiting, on a driver that carries out each of its
  \<open>2N - 1\<close> requests after any number of interruptions and answers each of its \<open>N\<close>
  readiness checks.\<close>

lemma lock_scripted:
  assumes "\<not> usbcam_has_dqbuf w" and "usbcam_has_fd w" and "usbcam_has_mmap w"
    and "usbcam_has_stream w" and "held (drv w) = []"
    and "outgoing (drv w) = bs" and "bs \<noteq> []"
    and "unat (index (last bs)) < usbcam_max_buffers"
    and "interruptions r0"
    and "\<forall>p \<in> set rest. interruptions (fst p) \<and> interruptions (snd p)"
    and "length rest = length bs - 1"
    and "faults (drv w) = lock_script r0 rest s"
  shows "\<exists>w'. usbcam_lock ValidPtr ValidPtr ValidPtr w =
           Some (Returns (usbcam_buffer_start w ! unat (index (last bs)),
                          bytesused (last bs), timestamp (last bs)) w') \<and>
         usbcam_has_dqbuf w' \<and> usbcam_dqbuf w' = last bs \<and>
         held (drv w') = [index (last bs)] \<and>
         incoming (drv w') = incoming (drv w) @ map index (butlast bs) \<and>
         outgoing (drv w') = [] \<and> faults (drv w') = s"
proof -
  from assms(7) obtain b bs' where bs: "bs = b # bs'"
    by (cases bs) auto
  let ?w1 = "w\<lparr>drv := performs (Dequeue (index b))
      ((drv w)\<lparr>faults := drain_script rest s, outgoing := bs',
                held := held (drv w) @ [index b]\<rparr>)\<rparr>"
  have f: "faults (drv w) = after_retries r0 (drain_script rest s)"
    using assms(12) by (simp add: lock_script_def)
  have first: "usbcam_ioctl (VIDIOC_DQBUF buf0) w = Some (Returns b ?w1)" for buf0
    using ioctl_DQBUF_retried [OF assms(2,9) f, of b bs' buf0] assms(6)
    by (simp add: bs)
  have "\<exists>d. lock_drain b ?w1 = Some (Returns (last (b # bs')) (?w1\<lparr>drv := d\<rparr>)) \<and>
       incoming d = incoming (drv ?w1) @ map index (butlast (b # bs')) \<and>
       outgoing d = [] \<and> held d = [index (last (b # bs'))] \<and> faults d = s"
    using assms(2,5,10,11) by (intro lock_drain_scripted) (simp_all add: bs)
  then obtain d where drain: "lock_drain b ?w1 = Some (Returns (last bs) (?w1\<lparr>drv := d\<rparr>))"
    and d: "incoming d = incoming (drv w) @ map index (butlast bs)" "outgoing d = []"
      "held d = [index (last bs)]" "faults d = s"
    unfolding bs by auto
  show ?thesis
    using assms(1-4,8) first drain d by (simp add: usbcam_lock_def)
qed

subsection \<open>The example sessions with interrupted and refused requests\<close>

lemma demo_locked_interrupted_reached:
  "run (demo_events @ [Lock ValidPtr ValidPtr ValidPtr])
     (program_start (demo_driver\<lparr>faults :=
        [None, None, None, None, None, None, None, None, None, None,
         None, None, None, None, None] @- after_retries [EINTR, EAGAIN] (sconst None)\<rparr>)) =
   Some demo_locked_interrupted"
  by (simp add: driver_defs program_defs demo_defs script_defs upt_rec)

lemma demo_stalled_reached:
  "run [Init demo_opt]
     (program_start (demo_driver\<lparr>faults :=
        [None, None, None, None, None, None, None, None, None, None] @-
          refused_after [EAGAIN] EIO (sconst None)\<rparr>)) =
   Some demo_stalled"
  by (simp add: driver_defs program_defs demo_defs script_defs upt_rec)

lemma demo_idle_scripted: "idle (demo_driver\<lparr>faults := fs\<rparr>)"
  by (simp add: idle_def demo_defs)

lemma demo_interrupted_unlock:
  "usbcam_unlock demo_locked_interrupted = Some (Returns () demo_unlocked)"
  by (simp add: driver_defs program_defs demo_defs script_defs)

lemma demo_unplugged_cleanup:
  "usbcam_cleanup demo_unplugged = Some (Aborts (RequestFailed ENODEV) demo_locked)"
  by (simp add: driver_defs program_defs demo_defs upt_rec)

lemma demo_scripts:
  "interruptions []" "interruptions [EINTR, EAGAIN]" "interruptions [EAGAIN]"
  "faults (drv demo_locked_interrupted) = after_retries [EINTR, EAGAIN] (sconst None)"
  "faults (drv demo_locked_interrupted) =
     cleanup_script demo_locked_interrupted [EINTR, EAGAIN] [] (sconst None)"
  "faults (drv demo_unplugged) = refused_after [] ENODEV (sconst None)"
  "faults (drv demo_stalled) = refused_after [EAGAIN] EIO (sconst None)"
  "faults (drv demo_ready) = lock_script [] [([], [])] (sconst None)"
  by (simp_all add: demo_defs script_defs sconst_None_unfold)

section \<open>The claims\<close>

subsection \<open>usbcam\_lock\<close>

text \<open>
  Claim C1 (drain to latest), as amended. Let the four preconditions of \<^verbatim>\<open>usbcam_lock\<close> hold,
  let no buffer be held by the application, and let \<open>N \<ge> 1\<close> filled buffers \<open>bs\<close> be waiting.
  Let the driver carry out each request of the call, the first dequeue after the
  interruptions \<open>r0\<close> and the requeue and the dequeue of each of the \<open>N - 1\<close> further rounds
  after the interruptions listed in \<open>rest\<close>, every interruption being an \<^verbatim>\<open>EINTR\<close> or
  \<^verbatim>\<open>EAGAIN\<close> answer, which \<^verbatim>\<open>usbcam_ioctl\<close> retries; let it answer each readiness check of the
  call, and finish no further buffer during the call. Then the call returns, and what it
  returns is the mapped address, the used length and the timestamp of the last (most
  recently filled) buffer of \<open>bs\<close>; that buffer is recorded as locked and is the only one
  held; the other \<open>N - 1\<close> buffers have been handed back to the driver's incoming queue in
  the order they were dequeued, and no filled buffer is left waiting. What the call does
  when a readiness check fails is left open here.
\<close>

theorem lock_returns_latest:
  assumes "\<not> usbcam_has_dqbuf w" and "usbcam_has_fd w" and "usbcam_has_mmap w"
    and "usbcam_has_stream w" and "held (drv w) = []"
    and "outgoing (drv w) = bs" and "bs \<noteq> []"
    and "unat (index (last bs)) < usbcam_max_buffers"
    and "interruptions r0"
    and "\<forall>p \<in> set rest. interruptions (fst p) \<and> interruptions (snd p)"
    and "length rest = length bs - 1"
    and "faults (drv w) = lock_script r0 rest s"
  shows "\<exists>w'. usbcam_lock ValidPtr ValidPtr ValidPtr w =
           Some (Returns (usbcam_buffer_start w ! unat (index (last bs)),
                          bytesused (last bs), timestamp (last bs)) w') \<and>
         usbcam_has_dqbuf w' \<and> usbcam_dqbuf w' = last bs \<and>
         held (drv w') = [index (last bs)] \<and>
         incoming (drv w') = incoming (drv w) @ map index (butlast bs) \<and>
         outgoing (drv w') = [] \<and> faults (drv w') = s"
  using assms by (rule lock_scripted)

theorem lock_returns_latest_witness:
  "\<not> usbcam_has_dqbuf demo_interrupted \<and> usbcam_has_fd demo_interrupted \<and>
   usbcam_has_mmap demo_interrupted \<and> usbcam_has_stream demo_interrupted \<and>
   held (drv demo_interrupted) = [] \<and> outgoing (drv demo_interrupted) = [frame0, frame1] \<and>
   unat (index (last [frame0, frame1])) < usbcam_max_buffers \<and>
   interruptions [EINTR] \<and> interruptions [EAGAIN, EINTR] \<and>
   faults (drv demo_interrupted) = lock_script [EINTR] [([EAGAIN, EINTR], [EINTR])] (sconst None) \<and>
   (\<exists>w'. usbcam_lock ValidPtr ValidPtr ValidPtr demo_interrupted =
           Some (Returns (0x7f0000001000, 4096, \<lparr>tv_sec = 100, tv_usec = 33000\<rparr>) w') \<and>
         usbcam_has_dqbuf w' \<and> usbcam_dqbuf w' = frame1 \<and> held (drv w') = [1] \<and>
         incoming (drv w') = [0] \<and> outgoing (drv w') = [] \<and> faults (drv w') = sconst None)"
  using lock_returns_latest [of demo_interrupted "[frame0, frame1]" "[EINTR]"
      "[([EAGAIN, EINTR], [EINTR])]" "sconst None"]
  by (simp add: demo_defs interruptions_def interrupted_script_def demo_interrupted_def
      usbcam_max_buffers_def)

text \<open>Claim C1 as stated, for every driver state, fails. In the example session with two
  frames waiting, a readiness check that fails makes \<^verbatim>\<open>usbcam_lock\<close> return the first and
  oldest frame, with the second left waiting and nothing requeued; and with the device
  unplugged the call ends the process on its first dequeue and returns no frame.\<close>

theorem lock_returns_oldest_counterexample:
  "run demo_events
     (program_start (demo_driver\<lparr>faults :=
        [None, None, None, None, None, None, None, None, None, None] @- poll_error_script\<rparr>)) =
     Some demo_poll_error \<and>
   outgoing (drv demo_poll_error) = [frame0, frame1] \<and>
   usbcam_lock ValidPtr ValidPtr ValidPtr demo_poll_error =
     Some (Returns (0x7f0000000000, 1000, \<lparr>tv_sec = 100, tv_usec = 0\<rparr>) demo_stale_locked) \<and>
   usbcam_dqbuf demo_stale_locked = frame0 \<and> outgoing (drv demo_stale_locked) = [frame1] \<and>
   incoming (drv demo_stale_locked) = [] \<and>
   outgoing (drv demo_ready_unplugged) = [frame0, frame1] \<and>
   usbcam_lock ValidPtr ValidPtr ValidPtr demo_ready_unplugged =
     Some (Aborts (RequestFailed ENODEV) demo_ready)"
  by (simp add: driver_defs program_defs demo_defs demo_stale_locked_def
      demo_ready_unplugged_def upt_rec)

text \<open>
  Claim C2 (the frame lies in the pool). In every session started from the program's
  initial state, whatever the driver's failures, when \<^verbatim>\<open>usbcam_lock\<close> returns then the
  index \<open>i\<close> of the buffer it locked is below \<^verbatim>\<open>usbcam_buffers\<close>, which is at most
  \<^verbatim>\<open>usbcam_max_buffers\<close>; the returned pointer is \<^verbatim>\<open>usbcam_buffer_start[i]\<close>, the address
  at which the driver mapped buffer \<open>i\<close>; and the returned size is at most
  \<^verbatim>\<open>usbcam_buffer_length[i]\<close>, the length of that buffer. The driver is the modelled one:
  it hands out only buffers that were queued to it and reports at most their length.
\<close>

theorem lock_frame_within_pool:
  assumes "idle d" and "run es (program_start d) = Some w"
    and "usbcam_lock data size_p timestamp_p w = Some (Returns (p, n, ts) w')"
  shows "\<exists>i. i = unat (index (usbcam_dqbuf w')) \<and> i < nat (usbcam_buffers w) \<and>
             nat (usbcam_buffers w) \<le> usbcam_max_buffers \<and>
             p = usbcam_buffer_start w ! i \<and>
             usbcam_buffer_start w ! i = map_base (drv w) (buffer_offset (drv w) (of_nat i)) \<and>
             usbcam_buffer_length w ! i = buffer_size (drv w) (of_nat i) \<and>
             n \<le> usbcam_buffer_length w ! i"
proof -
  have c: "consistent w"
    using reached_consistent [OF assms(1,2)] .
  from ensures_ReturnsD [OF lock_consistent [OF c] assms(3)]
  have r: "locked_result w (p, n, ts) w'" .
  then have c': "consistent w'" and l: "usbcam_has_dqbuf w'"
    and same: "usbcam_buffers w' = usbcam_buffers w"
      "usbcam_buffer_start w' = usbcam_buffer_start w"
      "usbcam_buffer_length w' = usbcam_buffer_length w"
      "same_device (drv w) (drv w')"
    and res: "p = usbcam_buffer_start w ! unat (index (usbcam_dqbuf w'))"
      "n = bytesused (usbcam_dqbuf w')"
    by (simp_all add: locked_result_def)
  let ?i = "unat (index (usbcam_dqbuf w'))"
  from c' l have "in_pool w' (usbcam_dqbuf w')" and "pool_mapped w'"
    and "usbcam_buffers w' \<le> int usbcam_max_buffers"
    by (auto simp: consistent_def queues_in_pool_def split: if_splits)
  then show ?thesis
    using same res
    by (auto simp: in_pool_def pool_mapped_def same_device_def)
qed

theorem lock_frame_within_pool_witness:
  "idle demo_driver \<and> run demo_events (program_start demo_driver) = Some demo_ready \<and>
   usbcam_lock ValidPtr ValidPtr ValidPtr demo_ready =
     Some (Returns (0x7f0000001000, 4096, \<lparr>tv_sec = 100, tv_usec = 33000\<rparr>) demo_locked) \<and>
   unat (index (usbcam_dqbuf demo_locked)) = 1 \<and> 1 < nat (usbcam_buffers demo_ready) \<and>
   nat (usbcam_buffers demo_ready) \<le> usbcam_max_buffers \<and>
   usbcam_buffer_start demo_ready ! 1 = 0x7f0000001000 \<and>
   usbcam_buffer_start demo_ready ! 1 =
     map_base (drv demo_ready) (buffer_offset (drv demo_ready) 1) \<and>
   usbcam_buffer_length demo_ready ! 1 = buffer_size (drv demo_ready) 1 \<and>
   4096 \<le> usbcam_buffer_length demo_ready ! 1"
proof -
  have i: "unat (index (usbcam_dqbuf demo_locked)) = 1"
    by (simp add: demo_defs)
  from lock_frame_within_pool [OF demo_idle(1) demo_ready_reached demo_lock_returns]
  have "1 < nat (usbcam_buffers demo_ready) \<and>
   nat (usbcam_buffers demo_ready) \<le> usbcam_max_buffers \<and>
   usbcam_buffer_start demo_ready ! 1 = 0x7f0000001000 \<and>
   usbcam_buffer_start demo_ready ! 1 =
     map_base (drv demo_ready) (buffer_offset (drv demo_ready) 1) \<and>
   usbcam_buffer_length demo_ready ! 1 = buffer_size (drv demo_ready) 1 \<and>
   4096 \<le> usbcam_buffer_length demo_ready ! 1"
    unfolding i by auto
  then show ?thesis
    using demo_idle(1) demo_ready_reached demo_lock_returns i
    by blast
qed

text \<open>When \<^verbatim>\<open>select\<close> answers \<open>-1\<close>, at whatever iteration, the loop of \<^verbatim>\<open>usbcam_lock\<close>
  is left with the buffer it holds, as it is when nothing is pending.\<close>

lemma lock_drain_stops_on_error:
  "select_readable (usbcam_fd w + 1) (drv w) = (- 1, d) \<Longrightarrow>
   lock_drain buf w = Some (Returns buf (w\<lparr>drv := d\<rparr>))"
  by (subst lock_drain.simps) simp

text \<open>
  Claim C3 (a failing readiness check) does not hold of the code. In the example session
  the first request of \<^verbatim>\<open>usbcam_lock\<close> dequeues the first frame, the readiness check
  that follows answers \<open>-1\<close>, and \<^verbatim>\<open>usbcam_lock\<close> returns the address, length and
  timestamp of that first frame as its result, although a second frame is waiting; no
  error is raised.
\<close>

theorem lock_poll_error_evaluation:
  "returned (usbcam_ioctl (VIDIOC_DQBUF (zero_buffer\<lparr>buf_type := V4L2_BUF_TYPE_VIDEO_CAPTURE,
       memory := V4L2_MEMORY_MMAP\<rparr>)) demo_poll_error) = Some demo_after_dequeue \<and>
   fst (select_readable (usbcam_fd demo_after_dequeue + 1) (drv demo_after_dequeue)) = - 1 \<and>
   result_of (usbcam_lock ValidPtr ValidPtr ValidPtr demo_poll_error) =
     Some (0x7f0000000000, 1000, \<lparr>tv_sec = 100, tv_usec = 0\<rparr>)"
  by (simp add: demo_defs driver_defs program_defs)

text \<open>
  Claim C7 (preconditions). If a frame is already locked, or the device is not open, or the
  pool is not mapped, or streaming is not on, \<^verbatim>\<open>usbcam_lock\<close> ends the process with the
  message of the first assertion that fails, in that order, and the world at that moment is
  the world of the call: nothing has been asked of the driver, so nothing was dequeued. In
  particular a second lock without an unlock in between fails on the first assertion.
\<close>

theorem lock_precondition_violation:
  "usbcam_has_dqbuf w \<or> \<not> usbcam_has_fd w \<or> \<not> usbcam_has_mmap w \<or> \<not> usbcam_has_stream w \<Longrightarrow>
   usbcam_lock data size_p timestamp_p w =
     Some (Aborts (AssertFailed
       (if usbcam_has_dqbuf w then ''You forgot to unlock the previous frame''
        else if \<not> usbcam_has_fd w then ''Camera device not open''
        else if \<not> usbcam_has_mmap w then ''Buffers not allocated''
        else ''Stream not begun'')) w)"
  by (auto simp: usbcam_lock_def)

theorem lock_precondition_violation_witness:
  "(usbcam_has_dqbuf demo_locked \<or> \<not> usbcam_has_fd demo_locked \<or>
    \<not> usbcam_has_mmap demo_locked \<or> \<not> usbcam_has_stream demo_locked) \<and>
   usbcam_lock ValidPtr ValidPtr ValidPtr demo_locked =
     Some (Aborts (AssertFailed ''You forgot to unlock the previous frame'') demo_locked)"
  using lock_precondition_violation [of demo_locked ValidPtr ValidPtr ValidPtr]
  by (simp add: demo_defs)

text \<open>
  Claim C10 (the timestamp out-parameter). \<^verbatim>\<open>usbcam_lock\<close> stores the timestamp through its
  third pointer without testing it. A call with a null timestamp pointer therefore never
  returns; and wherever the call with three valid pointers returns, the call with a null
  timestamp pointer, whatever the other two are, crashes on the null store.
\<close>

theorem lock_null_timestamp:
  "usbcam_lock data size_p NullPtr w \<noteq> Some (Returns r w') \<and>
   (usbcam_lock ValidPtr ValidPtr ValidPtr w = Some (Returns r w') \<longrightarrow>
      (\<exists>w''. usbcam_lock data size_p NullPtr w = Some (Aborts NullDereference w'')))"
  by (auto simp: usbcam_lock_def andthen_Returns)

theorem lock_null_timestamp_witness:
  "usbcam_lock ValidPtr ValidPtr ValidPtr demo_ready =
     Some (Returns (0x7f0000001000, 4096, \<lparr>tv_sec = 100, tv_usec = 33000\<rparr>) demo_locked) \<and>
   usbcam_lock ValidPtr ValidPtr NullPtr demo_ready =
     Some (Aborts NullDereference demo_null_crash)"
proof -
  have ok: "usbcam_lock ValidPtr ValidPtr ValidPtr demo_ready =
     Some (Returns (0x7f0000001000, 4096, \<lparr>tv_sec = 100, tv_usec = 33000\<rparr>) demo_locked)"
    by (simp add: demo_defs driver_defs program_defs)
  have "\<exists>w''. usbcam_lock ValidPtr ValidPtr NullPtr demo_ready =
     Some (Aborts NullDereference w'')"
    using lock_null_timestamp [of ValidPtr ValidPtr demo_ready
        "(0x7f0000001000, 4096, \<lparr>tv_sec = 100, tv_usec = 33000\<rparr>)" demo_locked] ok
    by blast
  moreover have "usbcam_lock ValidPtr ValidPtr NullPtr demo_ready =
     Some (Aborts NullDereference demo_null_crash)"
    by (simp add: demo_defs driver_defs program_defs)
  ultimately show ?thesis
    using ok by simp
qed

subsection \<open>usbcam\_unlock\<close>

text \<open>
  Claim C8 (unlock with nothing locked). When no frame is locked, \<^verbatim>\<open>usbcam_unlock\<close> returns
  and the world after it is the world before it: every variable of the session and the
  driver are untouched. Hence any number of such calls in a row return and change nothing,
  and whatever sequence of calls follows, a lock among them, runs as it would have run
  without them.
\<close>

theorem unlock_without_lock_is_noop:
  "\<not> usbcam_has_dqbuf w \<Longrightarrow>
   usbcam_unlock w = Some (Returns () w) \<and>
   run (replicate n Unlock) w = Some w \<and>
   run (replicate n Unlock @ es) w = run es w"
proof -
  assume a: "\<not> usbcam_has_dqbuf w"
  have one: "usbcam_unlock w = Some (Returns () w)"
    using a by (simp add: usbcam_unlock_def)
  have many: "run (replicate n Unlock) w = Some w"
    using one by (induction n) (simp_all add: returned_def)
  show ?thesis
    using one many by (simp add: run_append)
qed

theorem unlock_without_lock_is_noop_witness:
  "\<not> usbcam_has_dqbuf demo_ready \<and>
   usbcam_unlock demo_ready = Some (Returns () demo_ready) \<and>
   run (replicate 3 Unlock) demo_ready = Some demo_ready \<and>
   run (replicate 3 Unlock @ [Lock ValidPtr ValidPtr ValidPtr]) demo_ready = Some demo_locked"
proof -
  have "\<not> usbcam_has_dqbuf demo_ready"
    by (simp add: demo_defs)
  moreover have "run [Lock ValidPtr ValidPtr ValidPtr] demo_ready = Some demo_locked"
    by (simp add: demo_defs driver_defs program_defs)
  ultimately show ?thesis
    using unlock_without_lock_is_noop [of demo_ready 3 "[Lock ValidPtr ValidPtr ValidPtr]"]
    by simp
qed

subsection \<open>The single lock\<close>

text \<open>
  Claim C9 (single outstanding lock). In every world that a session reaches from the
  program's initial state by calls of the four operations, with the driver finishing
  frames in between, the buffers held by the application are exactly the locked one if
  \<^verbatim>\<open>usbcam_has_dqbuf\<close> is set and none otherwise, so at most one. A lock that returns
  starts with none held and ends with one; an unlock, a cleanup or an init that returns
  ends with none. And they do return: when the driver carries out the requeue, after any
  number of interruptions, \<^verbatim>\<open>usbcam_unlock\<close> returns with no buffer held and the buffer that
  was locked at the end of the driver's incoming queue; when the driver carries out the
  requeue and the stream-off, \<^verbatim>\<open>usbcam_cleanup\<close> returns with no buffer held; and with
  streaming on, no frame locked and a filled buffer waiting, \<^verbatim>\<open>usbcam_lock\<close> returns with one
  buffer held when the driver carries out its requests.
\<close>

theorem single_outstanding_lock:
  assumes "idle d" and "run es (program_start d) = Some w"
  shows "held (drv w) = (if usbcam_has_dqbuf w then [index (usbcam_dqbuf w)] else []) \<and>
         length (held (drv w)) \<le> 1 \<and>
         (\<forall>data size_p timestamp_p r w'.
            usbcam_lock data size_p timestamp_p w = Some (Returns r w') \<longrightarrow>
              held (drv w) = [] \<and> held (drv w') = [index (usbcam_dqbuf w')] \<and>
              usbcam_has_dqbuf w') \<and>
         (\<forall>w'. usbcam_unlock w = Some (Returns () w') \<longrightarrow>
            held (drv w') = [] \<and> \<not> usbcam_has_dqbuf w') \<and>
         (\<forall>w'. usbcam_cleanup w = Some (Returns () w') \<longrightarrow>
            held (drv w') = [] \<and> \<not> usbcam_has_dqbuf w') \<and>
         (\<forall>opt w'. usbcam_init opt w = Some (Returns () w') \<longrightarrow>
            held (drv w') = [] \<and> \<not> usbcam_has_dqbuf w') \<and>
         (\<forall>r s. interruptions r \<and> faults (drv w) = after_retries r s \<longrightarrow>
            (\<exists>w'. usbcam_unlock w = Some (Returns () w') \<and> held (drv w') = [] \<and>
               \<not> usbcam_has_dqbuf w' \<and> incoming (drv w') = incoming (drv w) @ held (drv w))) \<and>
         (\<forall>rq rs s. interruptions rq \<and> interruptions rs \<and>
              faults (drv w) = cleanup_script w rq rs s \<longrightarrow>
            (\<exists>w'. usbcam_cleanup w = Some (Returns () w') \<and> held (drv w') = [] \<and>
               \<not> usbcam_has_dqbuf w')) \<and>
         (\<forall>r0 rest s. \<not> usbcam_has_dqbuf w \<and> usbcam_has_stream w \<and> outgoing (drv w) \<noteq> [] \<and>
              interruptions r0 \<and> (\<forall>p \<in> set rest. interruptions (fst p) \<and> interruptions (snd p)) \<and>
              length rest = length (outgoing (drv w)) - 1 \<and>
              faults (drv w) = lock_script r0 rest s \<longrightarrow>
            (\<exists>r w'. usbcam_lock ValidPtr ValidPtr ValidPtr w = Some (Returns r w') \<and>
               held (drv w) = [] \<and> held (drv w') = [index (usbcam_dqbuf w')] \<and>
               usbcam_has_dqbuf w'))"
proof -
  have c: "consistent w"
    using reached_consistent [OF assms] .
  then have inv: "held (drv w) = (if usbcam_has_dqbuf w then [index (usbcam_dqbuf w)] else [])"
    by (simp add: consistent_def)
  have lock: "held (drv w) = [] \<and> held (drv w') = [index (usbcam_dqbuf w')] \<and>
      usbcam_has_dqbuf w'"
    if "usbcam_lock data size_p timestamp_p w = Some (Returns r w')"
    for data size_p timestamp_p r w'
    using ensures_ReturnsD [OF lock_consistent [OF c] that] inv
    by (simp add: locked_result_def consistent_def)
  have unlock: "held (drv w') = [] \<and> \<not> usbcam_has_dqbuf w'"
    if "usbcam_unlock w = Some (Returns () w')" for w'
    using ensures_ReturnsD [OF unlock_consistent [OF c] that]
    by (simp add: consistent_def)
  have cleanup: "held (drv w') = [] \<and> \<not> usbcam_has_dqbuf w'"
    if "usbcam_cleanup w = Some (Returns () w')" for w'
    using ensures_ReturnsD [OF cleanup_consistent [OF c] that]
    by (simp add: quiescent_def idle_def)
  have init: "held (drv w') = [] \<and> \<not> usbcam_has_dqbuf w'"
    if "usbcam_init opt w = Some (Returns () w')" for opt w'
    using ensures_ReturnsD [OF init_consistent [OF c] that]
    by (simp add: streaming_def consistent_def)
  have unlock_total: "\<exists>w'. usbcam_unlock w = Some (Returns () w') \<and> held (drv w') = [] \<and>
      \<not> usbcam_has_dqbuf w' \<and> incoming (drv w') = incoming (drv w) @ held (drv w)"
    if "interruptions r \<and> faults (drv w) = after_retries r s" for r s
  proof (cases "usbcam_has_dqbuf w")
    case False
    with inv show ?thesis
      by (simp add: usbcam_unlock_def)
  next
    case True
    with c have fd: "usbcam_has_fd w"
      by (simp add: consistent_def)
    from that have "interruptions r" and "faults (drv w) = after_retries r s"
      by simp_all
    from unlock_retried [OF True fd this] True inv show ?thesis
      by simp
  qed
  have cleanup_total: "\<exists>w'. usbcam_cleanup w = Some (Returns () w') \<and> held (drv w') = [] \<and>
      \<not> usbcam_has_dqbuf w'"
    if "interruptions rq \<and> interruptions rs \<and> faults (drv w) = cleanup_script w rq rs s"
    for rq rs s
  proof -
    from that cleanup_scripted [OF consistent_teardown_ready [OF c], of rq rs s]
    obtain w' where "usbcam_cleanup w = Some (Returns () w')"
      by blast
    with cleanup [OF this] show ?thesis
      by blast
  qed
  have lock_total: "\<exists>r w'. usbcam_lock ValidPtr ValidPtr ValidPtr w = Some (Returns r w') \<and>
      held (drv w) = [] \<and> held (drv w') = [index (usbcam_dqbuf w')] \<and> usbcam_has_dqbuf w'"
    if h: "\<not> usbcam_has_dqbuf w \<and> usbcam_has_stream w \<and> outgoing (drv w) \<noteq> [] \<and>
        interruptions r0 \<and> (\<forall>p \<in> set rest. interruptions (fst p) \<and> interruptions (snd p)) \<and>
        length rest = length (outgoing (drv w)) - 1 \<and>
        faults (drv w) = lock_script r0 rest s"
    for r0 rest s
  proof -
    from h c have flags: "usbcam_has_mmap w" "usbcam_has_fd w"
      and pool: "queues_in_pool w" "usbcam_buffers w \<le> int usbcam_max_buffers"
      by (simp_all add: consistent_def)
    from h have "last (outgoing (drv w)) \<in> set (outgoing (drv w))"
      by simp
    with pool have "unat (index (last (outgoing (drv w)))) < usbcam_max_buffers"
      by (auto simp: queues_in_pool_def in_pool_def)
    from lock_scripted [of w "outgoing (drv w)" r0 rest s, OF _ flags(2,1) _ _ refl _ this] h inv
    obtain w' where "usbcam_lock ValidPtr ValidPtr ValidPtr w =
        Some (Returns (usbcam_buffer_start w ! unat (index (last (outgoing (drv w)))),
          bytesused (last (outgoing (drv w))), timestamp (last (outgoing (drv w)))) w')"
      by auto
    with lock [OF this] show ?thesis
      by blast
  qed
  show ?thesis
    using inv lock unlock cleanup init unlock_total cleanup_total lock_total
    by (auto simp del: split_paired_All)
qed

theorem single_outstanding_lock_witness:
  "idle demo_driver \<and> run demo_events (program_start demo_driver) = Some demo_ready \<and>
   run (demo_events @ [Lock ValidPtr ValidPtr ValidPtr]) (program_start demo_driver) =
     Some demo_locked \<and>
   held (drv demo_ready) = [] \<and>
   usbcam_lock ValidPtr ValidPtr ValidPtr demo_ready =
     Some (Returns (0x7f0000001000, 4096, \<lparr>tv_sec = 100, tv_usec = 33000\<rparr>) demo_locked) \<and>
   held (drv demo_locked) = [index (usbcam_dqbuf demo_locked)] \<and>
   length (held (drv demo_locked)) \<le> 1 \<and> usbcam_has_dqbuf demo_locked \<and>
   usbcam_cleanup demo_locked = Some (Returns () demo_closed) \<and>
   held (drv demo_closed) = [] \<and> \<not> usbcam_has_dqbuf demo_closed \<and>
   run (demo_events @ [Lock ValidPtr ValidPtr ValidPtr])
     (program_start (demo_driver\<lparr>faults :=
        [None, None, None, None, None, None, None, None, None, None,
         None, None, None, None, None] @- after_retries [EINTR, EAGAIN] (sconst None)\<rparr>)) =
     Some demo_locked_interrupted \<and>
   interruptions [EINTR, EAGAIN] \<and>
   faults (drv demo_locked_interrupted) = after_retries [EINTR, EAGAIN] (sconst None) \<and>
   held (drv demo_locked_interrupted) = [1] \<and>
   usbcam_unlock demo_locked_interrupted = Some (Returns () demo_unlocked) \<and>
   held (drv demo_unlocked) = [] \<and> \<not> usbcam_has_dqbuf demo_unlocked \<and>
   incoming (drv demo_unlocked) = incoming (drv demo_locked_interrupted) @ [1] \<and>
   interruptions [] \<and>
   faults (drv demo_locked_interrupted) =
     cleanup_script demo_locked_interrupted [EINTR, EAGAIN] [] (sconst None) \<and>
   (\<exists>w'. usbcam_cleanup demo_locked_interrupted = Some (Returns () w') \<and>
      held (drv w') = [] \<and> \<not> usbcam_has_dqbuf w') \<and>
   \<not> usbcam_has_dqbuf demo_ready \<and> usbcam_has_stream demo_ready \<and>
   outgoing (drv demo_ready) \<noteq> [] \<and>
   length [([] :: errno list, [] :: errno list)] = length (outgoing (drv demo_ready)) - 1 \<and>
   faults (drv demo_ready) = lock_script [] [([], [])] (sconst None) \<and>
   (\<exists>r w'. usbcam_lock ValidPtr ValidPtr ValidPtr demo_ready = Some (Returns r w') \<and>
      held (drv w') = [index (usbcam_dqbuf w')] \<and> usbcam_has_dqbuf w')"
proof -
  note ready = single_outstanding_lock [OF demo_idle(1) demo_ready_reached]
  note locked = single_outstanding_lock [OF demo_idle(1) demo_locked_reached]
  note interrupted = single_outstanding_lock [OF demo_idle_scripted demo_locked_interrupted_reached]
  from ready demo_lock_returns
  have "held (drv demo_ready) = [] \<and>
      held (drv demo_locked) = [index (usbcam_dqbuf demo_locked)] \<and> usbcam_has_dqbuf demo_locked"
    by blast
  moreover from locked have "length (held (drv demo_locked)) \<le> 1"
    by blast
  moreover from locked demo_closed_reached
  have "held (drv demo_closed) = [] \<and> \<not> usbcam_has_dqbuf demo_closed"
    by blast
  moreover have h: "held (drv demo_locked_interrupted) = [1]"
    by (simp add: demo_defs script_defs)
  moreover from interrupted demo_scripts(2,4)
  have "\<exists>w'. usbcam_unlock demo_locked_interrupted = Some (Returns () w') \<and>
      held (drv w') = [] \<and> \<not> usbcam_has_dqbuf w' \<and>
      incoming (drv w') =
        incoming (drv demo_locked_interrupted) @ held (drv demo_locked_interrupted)"
    by blast
  then have "held (drv demo_unlocked) = [] \<and> \<not> usbcam_has_dqbuf demo_unlocked \<and>
      incoming (drv demo_unlocked) = incoming (drv demo_locked_interrupted) @ [1]"
    using demo_interrupted_unlock h by auto
  moreover from interrupted demo_scripts(1,2,5)
  have "\<exists>w'. usbcam_cleanup demo_locked_interrupted = Some (Returns () w') \<and>
      held (drv w') = [] \<and> \<not> usbcam_has_dqbuf w'"
    by blast
  moreover have s: "\<not> usbcam_has_dqbuf demo_ready" "usbcam_has_stream demo_ready"
    "outgoing (drv demo_ready) \<noteq> []"
    "length [([] :: errno list, [] :: errno list)] = length (outgoing (drv demo_ready)) - 1"
    "\<forall>p \<in> set [([] :: errno list, [] :: errno list)].
       interruptions (fst p) \<and> interruptions (snd p)"
    by (simp_all add: demo_defs interruptions_def)
  moreover from ready s demo_scripts(1,8)
  have "\<exists>r w'. usbcam_lock ValidPtr ValidPtr ValidPtr demo_ready = Some (Returns r w') \<and>
      held (drv w') = [index (usbcam_dqbuf w')] \<and> usbcam_has_dqbuf w'"
    by blast
  ultimately show ?thesis
    using demo_idle(1) demo_ready_reached demo_locked_reached demo_lock_returns
      demo_closed_reached demo_locked_interrupted_reached demo_scripts(1,2,4,5,8)
      demo_interrupted_unlock
    by blast
qed

subsection \<open>usbcam\_cleanup\<close>

text \<open>
  Claim C4 (teardown never fails), as amended. Let \<open>w\<close> be a world reached by a session, or
  the world in which an \<^verbatim>\<open>usbcam_init\<close> of such a session gave up. Then \<^verbatim>\<open>usbcam_cleanup\<close>
  on \<open>w\<close> never ends on an assertion or a bad access: if it ends the process, then with
  the real error, neither \<^verbatim>\<open>EINTR\<close> nor \<^verbatim>\<open>EAGAIN\<close>, of a request that the driver refused.
  It returns whenever the driver carries out the requests it issues, the requeue of a
  locked frame and the stream-off, each after any number of interruptions. It ends the
  process with error \<open>e\<close> whenever the driver refuses the requeue with a real error \<open>e\<close>,
  and whenever the driver, the requeue if any carried out, refuses the stream-off with a
  real error \<open>e\<close>.
\<close>

theorem cleanup_fails_only_on_device_error:
  assumes "idle d" and "run es (program_start d) = Some w0"
    and "w = w0 \<or> (\<exists>opt f. usbcam_init opt w0 = Some (Aborts f w))"
  shows "(\<forall>f' w'. usbcam_cleanup w = Some (Aborts f' w') \<longrightarrow>
            (\<exists>e. f' = RequestFailed e \<and> e \<noteq> EINTR \<and> e \<noteq> EAGAIN)) \<and>
         (\<forall>rq rs s. interruptions rq \<and> interruptions rs \<and>
              faults (drv w) = cleanup_script w rq rs s \<longrightarrow>
            (\<exists>w'. usbcam_cleanup w = Some (Returns () w') \<and> faults (drv w') = s)) \<and>
         (\<forall>rq e s. usbcam_has_dqbuf w \<and> interruptions rq \<and> e \<noteq> EINTR \<and> e \<noteq> EAGAIN \<and>
              faults (drv w) = refused_after rq e s \<longrightarrow>
            (\<exists>w'. usbcam_cleanup w = Some (Aborts (RequestFailed e) w'))) \<and>
         (\<forall>rq rs e s. usbcam_has_stream w \<and> interruptions rq \<and> interruptions rs \<and>
              e \<noteq> EINTR \<and> e \<noteq> EAGAIN \<and>
              faults (drv w) =
                (if usbcam_has_dqbuf w then after_retries rq (refused_after rs e s)
                 else refused_after rs e s) \<longrightarrow>
            (\<exists>w'. usbcam_cleanup w = Some (Aborts (RequestFailed e) w'))) \<and>
         (quiet (drv w) \<longrightarrow> (\<exists>w'. usbcam_cleanup w = Some (Returns () w')))"
proof -
  have t: "teardown_ready w"
    using abandoned_teardown_ready [OF assms] .
  have kind: "\<exists>e. f' = RequestFailed e \<and> e \<noteq> EINTR \<and> e \<noteq> EAGAIN"
    if a: "usbcam_cleanup w = Some (Aborts f' w')" for f' w'
  proof -
    from ensures_AbortsD [OF cleanup_teardown_ready [OF t] a]
    obtain e where e: "f' = RequestFailed e"
      by blast
    with a cleanup_abort_real [of w e w'] show ?thesis
      by simp
  qed
  have carried: "\<exists>w'. usbcam_cleanup w = Some (Returns () w') \<and> faults (drv w') = s"
    if "interruptions rq \<and> interruptions rs \<and> faults (drv w) = cleanup_script w rq rs s"
    for rq rs s
    using that cleanup_scripted [OF t, of rq rs s] by blast
  have requeue: "\<exists>w'. usbcam_cleanup w = Some (Aborts (RequestFailed e) w')"
    if "usbcam_has_dqbuf w \<and> interruptions rq \<and> e \<noteq> EINTR \<and> e \<noteq> EAGAIN \<and>
        faults (drv w) = refused_after rq e s" for rq e s
    using that cleanup_refused_requeue [OF t, of rq e s] by blast
  have stream_off: "\<exists>w'. usbcam_cleanup w = Some (Aborts (RequestFailed e) w')"
    if "usbcam_has_stream w \<and> interruptions rq \<and> interruptions rs \<and> e \<noteq> EINTR \<and> e \<noteq> EAGAIN \<and>
        faults (drv w) =
          (if usbcam_has_dqbuf w then after_retries rq (refused_after rs e s)
           else refused_after rs e s)" for rq rs e s
    using that cleanup_refused_streamoff [OF t, of rq rs e s] by blast
  show ?thesis
    using kind carried requeue stream_off cleanup_quiet_returns [OF t]
    by (intro conjI allI impI) blast+
qed

theorem cleanup_fails_only_on_device_error_witness:
  "idle demo_driver \<and>
   run (demo_events @ [Lock ValidPtr ValidPtr ValidPtr]) (program_start demo_driver) =
     Some demo_locked \<and>
   quiet (drv demo_locked) \<and> (\<exists>w'. usbcam_cleanup demo_locked = Some (Returns () w')) \<and>
   idle picky_driver \<and> run [] (program_start picky_driver) = Some (program_start picky_driver) \<and>
   usbcam_init demo_opt (program_start picky_driver) =
     Some (Aborts (AssertFailed ''Did not get the requested width'') demo_abandoned) \<and>
   quiet (drv demo_abandoned) \<and> (\<exists>w'. usbcam_cleanup demo_abandoned = Some (Returns () w')) \<and>
   run (demo_events @ [Lock ValidPtr ValidPtr ValidPtr])
     (program_start (demo_driver\<lparr>faults :=
        [None, None, None, None, None, None, None, None, None, None,
         None, None, None, None, None] @- after_retries [EINTR, EAGAIN] (sconst None)\<rparr>)) =
     Some demo_locked_interrupted \<and>
   interruptions [EINTR, EAGAIN] \<and> interruptions [] \<and>
   faults (drv demo_locked_interrupted) =
     cleanup_script demo_locked_interrupted [EINTR, EAGAIN] [] (sconst None) \<and>
   (\<exists>w'. usbcam_cleanup demo_locked_interrupted = Some (Returns () w') \<and>
      faults (drv w') = sconst None) \<and>
   run (demo_events @ [Lock ValidPtr ValidPtr ValidPtr])
     (program_start (demo_driver\<lparr>faults :=
        [None, None, None, None, None, None, None, None, None, None,
         None, None, None, None, None] @- unplugged_script\<rparr>)) =
     Some demo_unplugged \<and>
   usbcam_has_dqbuf demo_unplugged \<and> ENODEV \<noteq> EINTR \<and> ENODEV \<noteq> EAGAIN \<and>
   faults (drv demo_unplugged) = refused_after [] ENODEV (sconst None) \<and>
   (\<exists>w'. usbcam_cleanup demo_unplugged = Some (Aborts (RequestFailed ENODEV) w')) \<and>
   usbcam_cleanup demo_unplugged = Some (Aborts (RequestFailed ENODEV) demo_locked) \<and>
   (\<exists>e. RequestFailed ENODEV = RequestFailed e \<and> e \<noteq> EINTR \<and> e \<noteq> EAGAIN) \<and>
   run [Init demo_opt]
     (program_start (demo_driver\<lparr>faults :=
        [None, None, None, None, None, None, None, None, None, None] @-
          refused_after [EAGAIN] EIO (sconst None)\<rparr>)) =
     Some demo_stalled \<and>
   usbcam_has_stream demo_stalled \<and> \<not> usbcam_has_dqbuf demo_stalled \<and>
   interruptions [EAGAIN] \<and> EIO \<noteq> EINTR \<and> EIO \<noteq> EAGAIN \<and>
   faults (drv demo_stalled) = refused_after [EAGAIN] EIO (sconst None) \<and>
   (\<exists>w'. usbcam_cleanup demo_stalled = Some (Aborts (RequestFailed EIO) w'))"
proof -
  have q: "quiet (drv demo_locked)" "quiet (drv demo_abandoned)"
    by (simp_all add: quiet_def demo_defs)
  have r: "run [] (program_start picky_driver) = Some (program_start picky_driver)"
    by simp
  have flags: "usbcam_has_dqbuf demo_unplugged" "usbcam_has_stream demo_stalled"
    "\<not> usbcam_has_dqbuf demo_stalled"
    by (simp_all add: demo_defs script_defs)
  have real: "ENODEV \<noteq> EINTR" "ENODEV \<noteq> EAGAIN" "EIO \<noteq> EINTR" "EIO \<noteq> EAGAIN"
    by simp_all
  have "\<exists>w'. usbcam_cleanup demo_locked = Some (Returns () w')"
    using cleanup_fails_only_on_device_error [OF demo_idle(1) demo_locked_reached, of demo_locked] q
    by blast
  moreover have "\<exists>w'. usbcam_cleanup demo_abandoned = Some (Returns () w')"
    using cleanup_fails_only_on_device_error [OF demo_idle(2) r, of demo_abandoned]
      demo_abandoned_reached q
    by blast
  moreover have "\<exists>w'. usbcam_cleanup demo_locked_interrupted = Some (Returns () w') \<and>
      faults (drv w') = sconst None"
    using cleanup_fails_only_on_device_error
      [OF demo_idle_scripted demo_locked_interrupted_reached, of demo_locked_interrupted]
      demo_scripts(1,2,5)
    by blast
  moreover have "\<exists>w'. usbcam_cleanup demo_unplugged = Some (Aborts (RequestFailed ENODEV) w')"
    using cleanup_fails_only_on_device_error
      [OF demo_idle_scripted demo_unplugged_reached, of demo_unplugged]
      demo_scripts(1,6) flags(1) real(1,2)
    by blast
  moreover have "\<exists>e. RequestFailed ENODEV = RequestFailed e \<and> e \<noteq> EINTR \<and> e \<noteq> EAGAIN"
    using cleanup_fails_only_on_device_error
      [OF demo_idle_scripted demo_unplugged_reached, of demo_unplugged]
      demo_unplugged_cleanup
    by blast
  moreover have "\<exists>w'. usbcam_cleanup demo_stalled = Some (Aborts (RequestFailed EIO) w')"
  proof -
    have "faults (drv demo_stalled) =
        (if usbcam_has_dqbuf demo_stalled
         then after_retries [] (refused_after [EAGAIN] EIO (sconst None))
         else refused_after [EAGAIN] EIO (sconst None))"
      using flags(3) demo_scripts(7) by simp
    with cleanup_fails_only_on_device_error
      [OF demo_idle_scripted demo_stalled_reached, of demo_stalled]
      demo_scripts(1,3) flags(2) real(3,4)
    show ?thesis by blast
  qed
  ultimately show ?thesis
    using demo_idle demo_locked_reached demo_abandoned_reached q r
      demo_locked_interrupted_reached demo_unplugged_reached demo_stalled_reached
      demo_scripts(1,2,3,5,6,7) flags real demo_unplugged_cleanup
    by blast
qed

text \<open>Claim C4 as stated fails: the example session locks a frame, the device is
  unplugged, and \<^verbatim>\<open>usbcam_cleanup\<close> ends the process on the requeue.\<close>

theorem cleanup_fails_counterexample:
  "run (demo_events @ [Lock ValidPtr ValidPtr ValidPtr])
     (program_start (demo_driver\<lparr>faults :=
        [None, None, None, None, None, None, None, None, None, None,
         None, None, None, None, None] @- unplugged_script\<rparr>)) =
   Some demo_unplugged \<and>
   usbcam_cleanup demo_unplugged =
     Some (Aborts (RequestFailed ENODEV)
       (demo_unplugged\<lparr>drv := (drv demo_unplugged)\<lparr>faults := sconst None\<rparr>\<rparr>))"
  by (simp add: driver_defs program_defs demo_defs upt_rec)

text \<open>
  Claim C5 (teardown is idempotent). Let \<open>w\<close> be a world reached by a session, or the
  world in which an \<^verbatim>\<open>usbcam_init\<close> of such a session gave up. \<^verbatim>\<open>usbcam_cleanup\<close> on \<open>w\<close>
  returns when the driver carries out its requests, and whenever it returns, the session
  is observably the one of the program's start: no flag set, the driver's queues empty. On
  that world a further cleanup returns the same world, and so do any number of them. In
  particular \<^verbatim>\<open>usbcam_init\<close> followed at once by \<^verbatim>\<open>usbcam_cleanup\<close>, both returning,
  leaves the session observably as at the program's start, whatever the configuration.
\<close>

theorem cleanup_is_idempotent:
  assumes "idle d" and "run es (program_start d) = Some w0"
    and "w = w0 \<or> (\<exists>opt f. usbcam_init opt w0 = Some (Aborts f w))"
  shows "(quiet (drv w) \<longrightarrow> (\<exists>w1. usbcam_cleanup w = Some (Returns () w1))) \<and>
         (\<forall>w1. usbcam_cleanup w = Some (Returns () w1) \<longrightarrow>
            observable w1 = observable (program_start d) \<and>
            usbcam_cleanup w1 = Some (Returns () w1) \<and>
            run (replicate n Cleanup) w1 = Some w1) \<and>
         (\<forall>opt w1 w2. usbcam_init opt w0 = Some (Returns () w1) \<longrightarrow>
            usbcam_cleanup w1 = Some (Returns () w2) \<longrightarrow>
            observable w2 = observable (program_start d))"
proof -
  have t: "teardown_ready w"
    using abandoned_teardown_ready [OF assms] .
  have start: "observable w1 = observable (program_start d)"
    if "quiescent w1" and "idle (drv w1)" for w1
    using that assms(1) by (simp add: observable_def quiescent_def idle_def program_start_def)
  have after: "observable w1 = observable (program_start d) \<and>
      usbcam_cleanup w1 = Some (Returns () w1) \<and> run (replicate n Cleanup) w1 = Some w1"
    if "usbcam_cleanup w = Some (Returns () w1)" for w1
  proof -
    from ensures_ReturnsD [OF cleanup_teardown_ready [OF t] that]
    have q: "quiescent w1" and i: "idle (drv w1)"
      by simp_all
    have again: "usbcam_cleanup w1 = Some (Returns () w1)"
      using q by (simp add: usbcam_cleanup_def quiescent_def)
    then have "run (replicate n Cleanup) w1 = Some w1"
      by (induction n) (simp_all add: returned_def)
    with start [OF q i] again show ?thesis by simp
  qed
  have round: "observable w2 = observable (program_start d)"
    if "usbcam_init opt w0 = Some (Returns () w1)" and "usbcam_cleanup w1 = Some (Returns () w2)"
    for opt w1 w2
  proof -
    have "consistent w1"
      using ensures_ReturnsD [OF init_consistent [OF reached_consistent [OF assms(1,2)]] that(1)]
      by (simp add: streaming_def)
    from ensures_ReturnsD [OF cleanup_consistent [OF this] that(2)] show ?thesis
      by (simp add: start)
  qed
  from cleanup_quiet_returns [OF t] after round show ?thesis
    by blast
qed

theorem cleanup_is_idempotent_witness:
  "idle demo_driver \<and>
   run [] (program_start demo_driver) = Some (program_start demo_driver) \<and>
   usbcam_init demo_opt (program_start demo_driver) = Some (Returns () demo_initialised) \<and>
   run [Init demo_opt] (program_start demo_driver) = Some demo_initialised \<and>
   quiet (drv demo_initialised) \<and>
   usbcam_cleanup demo_initialised = Some (Returns () demo_torn_down) \<and>
   observable demo_torn_down = observable (program_start demo_driver) \<and>
   usbcam_cleanup demo_torn_down = Some (Returns () demo_torn_down) \<and>
   run (replicate 3 Cleanup) demo_torn_down = Some demo_torn_down \<and>
   idle picky_driver \<and>
   run [] (program_start picky_driver) = Some (program_start picky_driver) \<and>
   usbcam_init demo_opt (program_start picky_driver) =
     Some (Aborts (AssertFailed ''Did not get the requested width'') demo_abandoned) \<and>
   usbcam_cleanup demo_abandoned = Some (Returns () demo_abandoned_closed) \<and>
   observable demo_abandoned_closed = observable (program_start picky_driver) \<and>
   usbcam_cleanup demo_abandoned_closed = Some (Returns () demo_abandoned_closed)"
proof -
  have r: "run [] (program_start demo_driver) = Some (program_start demo_driver)"
    "run [] (program_start picky_driver) = Some (program_start picky_driver)"
    by simp_all
  have q: "quiet (drv demo_initialised)"
    by (simp add: quiet_def demo_defs)
  have "observable demo_torn_down = observable (program_start demo_driver)"
    using cleanup_is_idempotent [OF demo_idle(1) r(1), of "program_start demo_driver" 0]
      demo_init_returns demo_torn_down_reached
    by blast
  moreover have "usbcam_cleanup demo_torn_down = Some (Returns () demo_torn_down) \<and>
   run (replicate 3 Cleanup) demo_torn_down = Some demo_torn_down"
    using cleanup_is_idempotent [OF demo_idle(1) demo_initialised_reached, of demo_initialised 3]
      demo_torn_down_reached
    by blast
  moreover have "observable demo_abandoned_closed = observable (program_start picky_driver) \<and>
   usbcam_cleanup demo_abandoned_closed = Some (Returns () demo_abandoned_closed)"
    using cleanup_is_idempotent [OF demo_idle(2) r(2), of demo_abandoned 1]
      demo_abandoned_reached demo_abandoned_closed_reached
    by blast
  ultimately show ?thesis
    using demo_idle r q demo_init_returns demo_initialised_reached demo_torn_down_reached
      demo_abandoned_reached demo_abandoned_closed_reached
    by blast
qed

text \<open>
  Claim C6 (the order of teardown), as amended. Whenever \<^verbatim>\<open>usbcam_cleanup\<close> returns, the
  calls it made the driver carry out are, in this order: the requeue of the locked buffer
  if \<^verbatim>\<open>usbcam_has_dqbuf\<close> was set, the unmapping of slots \<open>0\<close> to \<^verbatim>\<open>usbcam_buffers - 1\<close> if
  \<^verbatim>\<open>usbcam_has_mmap\<close> was set, the stream-off if \<^verbatim>\<open>usbcam_has_stream\<close> was set, the close
  if \<^verbatim>\<open>usbcam_has_fd\<close> was set; nothing else; and the four flags are clear afterwards. The
  pool is unmapped before streaming is turned off, so this is not the reverse of the
  order open, map, stream on.
\<close>

theorem cleanup_unwinds_in_order:
  assumes "usbcam_cleanup w = Some (Returns () w')"
  shows "trace (drv w') = trace (drv w) @
           (if usbcam_has_dqbuf w then [Enqueue (index (usbcam_dqbuf w))] else []) @
           (if usbcam_has_mmap w
            then map (\<lambda>i. UnmapBuffer (usbcam_buffer_start w ! i) (usbcam_buffer_length w ! i))
                   [0..<nat (usbcam_buffers w)]
            else []) @
           (if usbcam_has_stream w then [StreamOff] else []) @
           (if usbcam_has_fd w then [Close (usbcam_fd w)] else []) \<and>
         \<not> usbcam_has_dqbuf w' \<and> \<not> usbcam_has_mmap w' \<and> \<not> usbcam_has_stream w' \<and>
         \<not> usbcam_has_fd w'"
  using ensures_ReturnsD [OF cleanup_ensures assms] by simp

theorem cleanup_unwinds_in_order_witness:
  "usbcam_cleanup demo_locked = Some (Returns () demo_closed) \<and>
   trace (drv demo_closed) = trace (drv demo_locked) @
     [Enqueue 1, UnmapBuffer 0x7f0000000000 4096, UnmapBuffer 0x7f0000001000 4096,
      StreamOff, Close 3] \<and>
   \<not> usbcam_has_dqbuf demo_closed \<and> \<not> usbcam_has_mmap demo_closed \<and>
   \<not> usbcam_has_stream demo_closed \<and> \<not> usbcam_has_fd demo_closed"
proof -
  have "trace (drv demo_closed) = trace (drv demo_locked) @
     [Enqueue 1, UnmapBuffer 0x7f0000000000 4096, UnmapBuffer 0x7f0000001000 4096,
      StreamOff, Close 3] \<and>
   \<not> usbcam_has_dqbuf demo_closed \<and> \<not> usbcam_has_mmap demo_closed \<and>
   \<not> usbcam_has_stream demo_closed \<and> \<not> usbcam_has_fd demo_closed"
    using cleanup_unwinds_in_order [OF demo_closed_reached]
    by (simp add: demo_locked_def demo_ready_def frame1_def usbcam_max_buffers_def upt_rec)
  with demo_closed_reached show ?thesis
    by (simp only: simp_thms)
qed

text \<open>Claim C6 as stated fails: in the example session the resources are acquired in the
  order device, pool, streaming, frame and released in the order frame, pool, streaming,
  device, which is not the reverse.\<close>

theorem cleanup_not_reverse_counterexample:
  "run (demo_events @ [Lock ValidPtr ValidPtr ValidPtr]) (program_start demo_driver) =
     Some demo_locked \<and>
   usbcam_cleanup demo_locked = Some (Returns () demo_closed) \<and>
   acquisition_order (trace (drv demo_locked)) = [Device, Pool, Streaming, Frame] \<and>
   release_order (drop (length (trace (drv demo_locked))) (trace (drv demo_closed))) =
     [Frame, Pool, Streaming, Device] \<and>
   release_order (drop (length (trace (drv demo_locked))) (trace (drv demo_closed))) \<noteq>
     rev (acquisition_order (trace (drv demo_locked)))"
  by (simp add: demo_locked_reached demo_closed_reached)
    (simp add: demo_defs acquisition_order_def release_order_def)

end
